theory Spec2Isabelle
  imports Main "HOL-Library.Word"
begin

unbundle bit_operations_syntax

section \<open>Data model of midi\_reader.h\<close>

type_synonym u8 = "8 word"

text \<open>The counters are \<^verbatim>\<open>unsigned long\<close>: 64 bits (LP64), \<open>+\<close> wraps around.\<close>

type_synonym ulong = "64 word"

datatype midi_frame_state_t =
    MIDIF_IOERROR
  | MIDIF_NODATA
  | MIDIF_ERROR
  | MIDIF_NEXT
  | MIDIF_COMPLETE
  | MIDIF_SKIPPED

definition MIDI_FRAME_MAX :: nat where
  "MIDI_FRAME_MAX = 128"

definition MIDI_READER_FRAMES_MAX :: nat where
  "MIDI_READER_FRAMES_MAX = 1024"

definition MIDI_READER_BUF_MAX :: nat where
  "MIDI_READER_BUF_MAX = 256"

definition MIDI_READER_IN_MAX :: nat where
  "MIDI_READER_IN_MAX = 64"

definition MIDIR_DEBUG :: int where
  "MIDIR_DEBUG = 1"

definition MIDIR_EXPAND :: int where
  "MIDIR_EXPAND = 2"

definition MIDIR_DUMPHEX :: int where
  "MIDIR_DUMPHEX = 4"

text \<open>
  \<^verbatim>\<open>midi_frame_t\<close>: \<open>len\<close> is an \<^verbatim>\<open>unsigned char\<close> (a number below 256), \<open>data\<close> the
  array of \<open>MIDI_FRAME_MAX\<close> bytes, a list of that length. The array keeps the bytes
  beyond \<open>len\<close>: they are copied with the struct.
\<close>

record midi_frame_t =
  len :: nat
  data :: "u8 list"

text \<open>The bytes of a frame that count: the first \<open>len\<close> ones of the array.\<close>

definition frame_bytes :: "midi_frame_t \<Rightarrow> u8 list" where
  "frame_bytes mf = take (len mf) (data mf)"

text \<open>A zeroed frame (\<^verbatim>\<open>memset\<close> with 0).\<close>

definition zero_frame :: midi_frame_t where
  "zero_frame = \<lparr>len = 0, data = replicate MIDI_FRAME_MAX 0\<rparr>"

text \<open>The frame holding the given bytes in a zeroed array.\<close>

definition mk_frame :: "u8 list \<Rightarrow> midi_frame_t" where
  "mk_frame bs = \<lparr>len = length bs,
     data = bs @ replicate (MIDI_FRAME_MAX - length bs) 0\<rparr>"

section \<open>Frames\<close>

text \<open>\<^verbatim>\<open>midi_frame_reset\<close>: the length and the first byte are cleared, nothing else.\<close>

definition midi_frame_reset :: "midi_frame_t \<Rightarrow> midi_frame_t" where
  "midi_frame_reset mf = mf\<lparr>len := 0, data := (data mf)[0 := 0]\<rparr>"

text \<open>
  The statement \<^verbatim>\<open>mf->data[mf->len++] = b\<close>, used by the expansion and by the byte
  state machine. The increment is that of an \<^verbatim>\<open>unsigned char\<close>. The expansion reaches it
  with \<open>len < MIDI_FRAME_MAX\<close>, the state machine with \<open>len \<noteq> MIDI_FRAME_MAX\<close>; a write past the
  array (undefined in C) would leave the list as it is.
\<close>

definition frame_append :: "midi_frame_t \<Rightarrow> u8 \<Rightarrow> midi_frame_t" where
  "frame_append mf b = mf\<lparr>data := (data mf)[len mf := b], len := (len mf + 1) mod 256\<rparr>"

text \<open>
  The loop of \<^verbatim>\<open>midi_frame_expand_running\<close>:
  \<^verbatim>\<open>for (i = 1; i < f.len; i += 2)\<close> appends \<open>f.data[0]\<close>, \<open>f.data[i]\<close>, \<open>f.data[i+1]\<close>.
\<close>

function expand_loop :: "midi_frame_t \<Rightarrow> nat \<Rightarrow> midi_frame_t \<Rightarrow> midi_frame_t" where
  "expand_loop f i mf =
     (if i < len f
      then expand_loop f (i + 2)
             (frame_append (frame_append (frame_append mf (data f ! 0)) (data f ! i))
                (data f ! (i + 1)))
      else mf)"
  by pat_completeness auto
termination
  by (relation "measure (\<lambda>(f, i, mf). len f - i)") auto

declare expand_loop.simps [simp del]

text \<open>
  \<^verbatim>\<open>midi_frame_expand_running\<close> returns its boolean and the frame as it leaves it.
  \<open>mf->len - 1\<close> is computed on \<^verbatim>\<open>int\<close>: for \<open>len = 0\<close> it is \<open>-1\<close>, whose remainder by 2
  is not zero in C (\<open>-1\<close>) nor here (\<open>1\<close>); the division is only reached with
  \<open>len \<ge> 1\<close>, where C and HOL agree.
\<close>

definition midi_frame_expand_running :: "midi_frame_t \<Rightarrow> bool \<times> midi_frame_t" where
  "midi_frame_expand_running mf =
     (if data mf ! 0 < 0x80 \<or> (data mf ! 0 > 0xef \<or> len mf = 3) then (True, mf)
      else if (int (len mf) - 1) mod 2 \<noteq> 0 then (False, mf)
      else if int (len mf) + (int (len mf) - 1) div 2 > int MIDI_FRAME_MAX then (False, mf)
      else (True, expand_loop mf 1 (midi_frame_reset mf)))"


section \<open>Statistics, sources, queue and reader\<close>

record midi_reader_stats_t =
  read :: ulong
  errors :: ulong
  skipped :: ulong
  missed :: ulong

definition zero_stats :: midi_reader_stats_t where
  "zero_stats = \<lparr>read = 0, errors = 0, skipped = 0, missed = 0\<rparr>"

text \<open>
  \<^verbatim>\<open>midi_reader_source_t\<close>. \<open>buf_len\<close> and \<open>buf_offset\<close> are \<^verbatim>\<open>int\<close>s that never go below 0;
  \<open>fd\<close>, \<open>push_back\<close> and \<open>channel\<close> use \<open>-1\<close> for "none".
\<close>

record midi_reader_source_t =
  fd :: int
  running :: u8
  buf :: "u8 list"
  buf_len :: nat
  buf_offset :: nat
  push_back :: int
  current :: midi_frame_t
  channel :: int
  stats :: midi_reader_stats_t

text \<open>\<^verbatim>\<open>midi_frames_t\<close>: its fields \<open>len\<close>, \<open>offset\<close> and \<open>frames\<close> (an array of
  \<open>MIDI_READER_FRAMES_MAX\<close> frames). The two \<^verbatim>\<open>int\<close>s never go below 0.\<close>

record midi_frames_t =
  q_len :: nat
  q_offset :: nat
  q_frames :: "midi_frame_t list"

text \<open>
  The callback, when it returns, has a state to report and may have changed the frame it
  was given: a function from the frame to both.
\<close>

type_synonym midi_reader_callback_t = "midi_frame_t \<Rightarrow> midi_frame_state_t \<times> midi_frame_t"

text \<open>
  \<^verbatim>\<open>midi_reader_t\<close>. \<open>to_skip\<close> is \<open>None\<close> for \<^verbatim>\<open>NULL\<close>, else the bytes in memory at the
  pointer (the reader stops at the first zero); \<open>nsources\<close> is an \<^verbatim>\<open>int\<close> that never goes
  below 0; \<open>user_data\<close> is part of the callback. The last five fields are not in the
  struct: \<open>start\<close> is the \<^verbatim>\<open>static int start\<close> of \<^verbatim>\<open>midi_reader_update\<close>, the others
  record what the reader does to its environment: the descriptors given to \<^verbatim>\<open>close\<close>,
  the debug text printed on descriptor 2, the writes of the dump step (descriptor and
  bytes) and the frames handed to the callback.
\<close>

record midi_reader_t =
  flags :: int
  sources :: "midi_reader_source_t list"
  nsources :: nat
  dumpfd :: int
  frames :: midi_frames_t
  to_skip :: "u8 list option"
  callback :: "midi_reader_callback_t option"
  total :: midi_reader_stats_t
  start :: int
  closed_fds :: "int list"
  debug_out :: "u8 list"
  dump_out :: "(int \<times> u8 list) list"
  cb_log :: "midi_frame_t list"

text \<open>The table \<^verbatim>\<open>midi_frame_len\<close>, indexed by the status byte minus 0x80.\<close>

definition midi_frame_len :: "int list" where
  "midi_frame_len =
    [3, 3, 3, 3, 3, 3, 3, 3, 3, 3, 3, 3, 3, 3, 3, 3,
     3, 3, 3, 3, 3, 3, 3, 3, 3, 3, 3, 3, 3, 3, 3, 3,
     3, 3, 3, 3, 3, 3, 3, 3, 3, 3, 3, 3, 3, 3, 3, 3,
     3, 3, 3, 3, 3, 3, 3, 3, 3, 3, 3, 3, 3, 3, 3, 3,
     2, 2, 2, 2, 2, 2, 2, 2, 2, 2, 2, 2, 2, 2, 2, 2,
     2, 2, 2, 2, 2, 2, 2, 2, 2, 2, 2, 2, 2, 2, 2, 2,
     3, 3, 3, 3, 3, 3, 3, 3, 3, 3, 3, 3, 3, 3, 3, 3,
     - 0xf0, 2, 3, 2, 1, 1, 1, 1,
     1, 1, 1, 1, 1, 1, 1, 1]"

section \<open>Sources\<close>

definition zero_source :: midi_reader_source_t where
  "zero_source = \<lparr>fd = 0, running = 0, buf = replicate MIDI_READER_BUF_MAX 0,
     buf_len = 0, buf_offset = 0, push_back = 0, current = zero_frame, channel = 0,
     stats = zero_stats\<rparr>"

text \<open>
  \<^verbatim>\<open>midi_reader_reset_source\<close> returns the source as it leaves it and the descriptors it
  gave to \<^verbatim>\<open>close\<close>. The \<^verbatim>\<open>memset\<close> comes first, so \<open>src->fd\<close> is read from the zeroed
  struct.
\<close>

definition midi_reader_reset_source ::
    "midi_reader_source_t \<Rightarrow> bool \<Rightarrow> midi_reader_source_t \<times> int list" where
  "midi_reader_reset_source src to_close =
     (let src = zero_source in
      if to_close
      then (src\<lparr>fd := -1, push_back := -1, channel := -1\<rparr>, [fd src])
      else (src\<lparr>push_back := -1, channel := -1\<rparr>, []))"

definition midi_reader_reset_source_n :: "midi_reader_t \<Rightarrow> nat \<Rightarrow> bool \<Rightarrow> midi_reader_t" where
  "midi_reader_reset_source_n reader src to_close =
     (if src < MIDI_READER_IN_MAX
      then (case midi_reader_reset_source (sources reader ! src) to_close of
              (s, cl) \<Rightarrow> reader\<lparr>sources := (sources reader)[src := s],
                                closed_fds := closed_fds reader @ cl\<rparr>)
      else reader)"

text \<open>
  \<^verbatim>\<open>midi_reader_init\<close> overwrites the struct: every one of the 64 sources is reset, the
  queue is zeroed. The environment (first argument) stays.
\<close>

definition midi_reader_init :: "midi_reader_t \<Rightarrow> int \<Rightarrow> u8 list option \<Rightarrow> midi_reader_t" where
  "midi_reader_init reader fl skip =
     reader\<lparr>flags := fl,
       sources := replicate MIDI_READER_IN_MAX (fst (midi_reader_reset_source zero_source False)),
       nsources := 0,
       dumpfd := -1,
       frames := \<lparr>q_len = 0, q_offset = 0,
                   q_frames = replicate MIDI_READER_FRAMES_MAX zero_frame\<rparr>,
       to_skip := skip,
       callback := None,
       total := zero_stats\<rparr>"

text \<open>An environment in which nothing has happened yet.\<close>

definition fresh_env :: midi_reader_t where
  "fresh_env = \<lparr>flags = 0, sources = [], nsources = 0, dumpfd = 0,
     frames = \<lparr>q_len = 0, q_offset = 0, q_frames = []\<rparr>, to_skip = None, callback = None,
     total = zero_stats, start = -1, closed_fds = [], debug_out = [], dump_out = [],
     cb_log = []\<rparr>"

definition midi_reader_add_source :: "midi_reader_t \<Rightarrow> int \<Rightarrow> int \<Rightarrow> bool \<times> midi_reader_t" where
  "midi_reader_add_source reader fd' chan =
     (if fd' > -1 \<and> nsources reader < MIDI_READER_IN_MAX
      then if list_ex (\<lambda>s. fd s = fd') (take (nsources reader) (sources reader))
           then (True, reader)
           else (True, reader\<lparr>sources := (sources reader)[nsources reader :=
                           (sources reader ! nsources reader)\<lparr>fd := fd',
                              channel := (if chan \<ge> 1 \<and> chan \<le> 16 then chan else -1)\<rparr>],
                         nsources := nsources reader + 1\<rparr>)
      else (False, reader))"

text \<open>The search loop of \<^verbatim>\<open>midi_reader_remove_source\<close>: the first \<open>i\<close> whose \<open>fd\<close> matches,
  or \<open>nsources\<close>.\<close>

definition find_source :: "midi_reader_t \<Rightarrow> int \<Rightarrow> nat" where
  "find_source reader fd' =
     length (takeWhile (\<lambda>s. fd s \<noteq> fd') (take (nsources reader) (sources reader)))"

text \<open>The copy loop \<^verbatim>\<open>for (j = i + 1; j < MIDI_READER_IN_MAX; j++)\<close>; it returns the
  array and the final \<open>j\<close>.\<close>

function shift_sources ::
    "midi_reader_source_t list \<Rightarrow> nat \<Rightarrow> midi_reader_source_t list \<times> nat" where
  "shift_sources srcs j =
     (if j < MIDI_READER_IN_MAX then shift_sources (srcs[j - 1 := srcs ! j]) (j + 1)
      else (srcs, j))"
  by pat_completeness auto
termination
  by (relation "measure (\<lambda>(srcs, j). MIDI_READER_IN_MAX - j)") auto

declare shift_sources.simps [simp del]

definition midi_reader_remove_source :: "midi_reader_t \<Rightarrow> int \<Rightarrow> bool \<times> midi_reader_t" where
  "midi_reader_remove_source reader fd' =
     (if fd' < 0 \<or> nsources reader = 0 then (False, reader)
      else
        let i = find_source reader fd' in
        if i \<ge> nsources reader then (False, reader)
        else
          let reader = midi_reader_reset_source_n reader i True;
              (srcs, j) = shift_sources (sources reader) (i + 1);
              reader = reader\<lparr>sources := srcs\<rparr>;
              reader = midi_reader_reset_source_n reader j False
          in (True, reader\<lparr>nsources := nsources reader - 1\<rparr>))"

definition midi_reader_set_dump_fd :: "midi_reader_t \<Rightarrow> int \<Rightarrow> bool \<times> midi_reader_t" where
  "midi_reader_set_dump_fd reader fd' =
     (if fd' > -1 then (True, reader\<lparr>dumpfd := fd'\<rparr>) else (False, reader))"

definition midi_reader_set_callback ::
    "midi_reader_t \<Rightarrow> midi_reader_callback_t option \<Rightarrow> midi_reader_t" where
  "midi_reader_set_callback reader cb = reader\<lparr>callback := cb\<rparr>"

definition midi_reader_close :: "midi_reader_t \<Rightarrow> midi_reader_t" where
  "midi_reader_close reader =
     (if nsources reader = 0 then reader
      else
        let reader = foldl (\<lambda>r i. midi_reader_reset_source_n r i True) reader
                       [0..<nsources reader]
        in if dumpfd reader > -1
           then reader\<lparr>closed_fds := closed_fds reader @ [dumpfd reader], dumpfd := -1\<rparr>
           else reader)"

section \<open>Reading bytes\<close>

text \<open>
  One turn of the loop of \<^verbatim>\<open>midi_reader_read\<close> for a source; \<open>inp\<close> is what the descriptor
  has to give at this call, of which \<^verbatim>\<open>read\<close> takes at most the room left in \<open>buf\<close>.
\<close>

definition read_source :: "midi_reader_source_t \<Rightarrow> u8 list \<Rightarrow> midi_reader_source_t" where
  "read_source s inp =
     (if push_back s > -1 then s
      else
        let s = (if buf_offset s \<ge> buf_len s then s\<lparr>buf_len := 0, buf_offset := 0\<rparr> else s) in
        if buf_len s \<ge> MIDI_READER_BUF_MAX then s
        else
          let got = take (MIDI_READER_BUF_MAX - buf_len s) inp in
          if length got > 0
          then s\<lparr>buf := take (buf_len s) (buf s) @ got @ drop (buf_len s + length got) (buf s),
                 buf_len := buf_len s + length got\<rparr>
          else s)"

definition midi_reader_read :: "midi_reader_t \<Rightarrow> (nat \<Rightarrow> u8 list) \<Rightarrow> midi_reader_t" where
  "midi_reader_read reader inps =
     foldl (\<lambda>r i. r\<lparr>sources := (sources r)[i := read_source (sources r ! i) (inps i)]\<rparr>)
       reader [0..<nsources reader]"

definition midi_reader_get_byte :: "midi_reader_source_t \<Rightarrow> int \<times> midi_reader_source_t" where
  "midi_reader_get_byte s =
     (if push_back s > -1 then (push_back s, s\<lparr>push_back := -1\<rparr>)
      else if buf_len s > 0 \<and> buf_offset s < buf_len s
      then (uint (buf s ! buf_offset s), s\<lparr>buf_offset := buf_offset s + 1\<rparr>)
      else (-1, s))"

section \<open>Finalising a frame\<close>

text \<open>The scan of the zero-terminated \<open>to_skip\<close> for the first byte of the frame.\<close>

definition skip_entry :: "u8 list option \<Rightarrow> u8 \<Rightarrow> bool" where
  "skip_entry skip b =
     (case skip of None \<Rightarrow> False
      | Some ps \<Rightarrow> b \<in> set (takeWhile (\<lambda>p. p \<noteq> 0) ps))"

definition frame_skipped :: "u8 list option \<Rightarrow> midi_frame_t \<Rightarrow> bool" where
  "frame_skipped skip mf = skip_entry skip (data mf ! 0)"

text \<open>\<^verbatim>\<open>midi_frame_dump\<close>: the text it prints on \<open>fd\<close>, \<^verbatim>\<open>"%.2x "\<close> for each byte.\<close>

definition hex_digit :: "nat \<Rightarrow> u8" where
  "hex_digit n = (if n < 10 then of_nat (48 + n) else of_nat (87 + n))"

definition midi_frame_dump :: "midi_frame_t \<Rightarrow> int \<Rightarrow> u8 list" where
  "midi_frame_dump mf fd' =
     (if fd' > -1
      then concat (map (\<lambda>j. [hex_digit (unat (data mf ! j) div 16),
                              hex_digit (unat (data mf ! j) mod 16), 32]) [0..<len mf])
      else [])"

definition ascii :: "string \<Rightarrow> u8 list" where
  "ascii cs = map (\<lambda>c. of_nat (of_char c)) cs"

definition debug_trace :: "midi_reader_t \<Rightarrow> midi_frame_t \<Rightarrow> bool \<Rightarrow> midi_reader_t" where
  "debug_trace reader mf skp =
     (if flags reader AND MIDIR_DEBUG \<noteq> 0
      then reader\<lparr>debug_out := debug_out reader @
             ascii ''incoming frame'' @ ascii (if skp then '' (skipped): '' else '': '') @
             midi_frame_dump mf 2 @ [10]\<rparr>
      else reader)"

definition channel_translation :: "midi_reader_source_t \<Rightarrow> midi_frame_t \<Rightarrow> midi_frame_t" where
  "channel_translation src mf =
     (if channel src > 0
      then if data mf ! 0 \<ge> 0x80 \<and> data mf ! 0 \<le> 0xef
           then mf\<lparr>data := (data mf)[0 := (data mf ! 0 AND 0xF0) OR word_of_int (channel src - 1)]\<rparr>
           else mf
      else mf)"

definition expand_step :: "midi_reader_t \<Rightarrow> midi_frame_t \<Rightarrow> midi_frame_t" where
  "expand_step reader mf =
     (if flags reader AND MIDIR_EXPAND \<noteq> 0 then snd (midi_frame_expand_running mf) else mf)"

definition dump_step :: "midi_reader_t \<Rightarrow> midi_frame_t \<Rightarrow> midi_reader_t" where
  "dump_step reader mf =
     (if dumpfd reader > -1
      then if flags reader AND MIDIR_DUMPHEX \<noteq> 0
           then reader\<lparr>dump_out := dump_out reader @
                  [(dumpfd reader, midi_frame_dump mf (dumpfd reader))]\<rparr>
           else reader\<lparr>dump_out := dump_out reader @ [(dumpfd reader, take (len mf) (data mf))]\<rparr>
      else reader)"

definition store_step :: "midi_reader_t \<Rightarrow> midi_frame_t \<Rightarrow> midi_reader_t" where
  "store_step reader mf =
     (let fr = frames reader;
          fr = (if q_len fr = q_offset fr then fr\<lparr>q_len := 0, q_offset := 0\<rparr> else fr)
      in if q_len fr < MIDI_READER_FRAMES_MAX
         then reader\<lparr>frames := fr\<lparr>q_frames := (q_frames fr)[q_len fr := mf],
                                   q_len := q_len fr + 1\<rparr>\<rparr>
         else reader\<lparr>frames := fr,
                total := (total reader)\<lparr>missed := missed (total reader) + 1\<rparr>\<rparr>)"

definition count_read :: "midi_reader_stats_t \<Rightarrow> midi_reader_stats_t" where
  "count_read st = st\<lparr>read := read st + 1\<rparr>"

definition count_error :: "midi_reader_stats_t \<Rightarrow> midi_reader_stats_t" where
  "count_error st = st\<lparr>errors := errors st + 1\<rparr>"

definition count_skipped :: "midi_reader_stats_t \<Rightarrow> midi_reader_stats_t" where
  "count_skipped st = st\<lparr>skipped := skipped st + 1\<rparr>"

text \<open>
  \<^verbatim>\<open>midi_frame_process\<close>. Both callers pass \<open>mf = &src->current\<close>, so the frame is the
  source's own and what the function does to it is seen in the source it returns.
\<close>

definition midi_frame_process ::
    "midi_reader_t \<Rightarrow> midi_reader_source_t \<Rightarrow>
     midi_frame_state_t \<times> midi_reader_t \<times> midi_reader_source_t" where
  "midi_frame_process reader src =
     (if len (current src) = 0 then (MIDIF_NODATA, reader, src)
      else
        let src = src\<lparr>stats := count_read (stats src)\<rparr>;
            reader = reader\<lparr>total := count_read (total reader)\<rparr>;
            skp = frame_skipped (to_skip reader) (current src);
            reader = debug_trace reader (current src) skp
        in if skp
           then (MIDIF_SKIPPED, reader\<lparr>total := count_skipped (total reader)\<rparr>,
                 src\<lparr>stats := count_skipped (stats src)\<rparr>)
           else
             let src = src\<lparr>current := channel_translation src (current src)\<rparr>;
                 src = src\<lparr>current := expand_step reader (current src)\<rparr>
             in case callback reader of
                  None \<Rightarrow>
                    (MIDIF_COMPLETE, store_step (dump_step reader (current src)) (current src), src)
                | Some cb \<Rightarrow>
                    (case cb (current src) of (st, mf') \<Rightarrow>
                       let reader = reader\<lparr>cb_log := cb_log reader @ [current src]\<rparr>;
                           src = src\<lparr>current := mf'\<rparr>
                       in if len mf' = 0 then (MIDIF_NODATA, reader, src)
                          else if st = MIDIF_SKIPPED
                          then (MIDIF_SKIPPED, reader\<lparr>total := count_skipped (total reader)\<rparr>,
                                src\<lparr>stats := count_skipped (stats src)\<rparr>)
                          else if st \<noteq> MIDIF_COMPLETE
                          then (st, reader\<lparr>total := count_error (total reader)\<rparr>,
                                src\<lparr>stats := count_error (stats src)\<rparr>)
                          else (MIDIF_COMPLETE, store_step (dump_step reader mf') mf', src)))"

section \<open>The byte state machine\<close>

definition midi_reader_push_byte ::
    "midi_reader_t \<Rightarrow> midi_reader_source_t \<Rightarrow> int \<Rightarrow>
     midi_frame_state_t \<times> midi_reader_t \<times> midi_reader_source_t" where
  "midi_reader_push_byte reader src dat =
     (if dat < 0 then (MIDIF_NODATA, reader, src)
      else if dat > 0xFF
      then (MIDIF_IOERROR, reader\<lparr>total := count_error (total reader)\<rparr>,
            src\<lparr>stats := count_error (stats src), running := 0\<rparr>)
      else
        let b = (word_of_int dat :: u8) in
        if len (current src) = MIDI_FRAME_MAX
        then (MIDIF_ERROR, reader\<lparr>total := count_error (total reader)\<rparr>,
              src\<lparr>running := 0, stats := count_error (stats src)\<rparr>)
        else if running src \<noteq> 0 \<and> b AND 0x80 \<noteq> 0
        then
          let src = src\<lparr>push_back := uint b, running := 0\<rparr> in
          if len (current src) = 0 \<or> (int (len (current src)) - 1) mod 2 \<noteq> 0
          then (MIDIF_ERROR, reader\<lparr>total := count_error (total reader)\<rparr>,
                src\<lparr>stats := count_error (stats src)\<rparr>)
          else midi_frame_process reader src
        else
          let src = (if len (current src) = 0
                     then src\<lparr>running := (if b \<ge> 0x80 \<and> b \<le> 0xef then b else 0)\<rparr>
                     else src);
              src = src\<lparr>current := frame_append (current src) b\<rparr>
          in if data (current src) ! 0 AND 0x80 = 0
             then (MIDIF_ERROR, reader\<lparr>total := count_error (total reader)\<rparr>,
                   src\<lparr>stats := count_error (stats src), running := 0\<rparr>)
             else
               let l = midi_frame_len ! (unat (data (current src) ! 0) - 0x80) in
               if l = - 0xf0 \<and> len (current src) > 1
               then if b = 0xf7 then midi_frame_process reader src
                    else (MIDIF_NEXT, reader, src)
               else if running src = 0 \<and> l = int (len (current src))
               then midi_frame_process reader src
               else (MIDIF_NEXT, reader, src))"

text \<open>The byte state machine run on a sequence of values, as a caller that feeds them one
  after the other does; it returns the outcome of each.\<close>

fun feed ::
    "midi_reader_t \<Rightarrow> midi_reader_source_t \<Rightarrow> int list \<Rightarrow>
     midi_frame_state_t list \<times> midi_reader_t \<times> midi_reader_source_t" where
  "feed reader src [] = ([], reader, src)"
| "feed reader src (d # ds) =
     (case midi_reader_push_byte reader src d of
        (r, reader', src') \<Rightarrow>
          (case feed reader' src' ds of
             (rs, reader'', src'') \<Rightarrow> (r # rs, reader'', src'')))"

section \<open>Injection\<close>

text \<open>
  The loop of \<^verbatim>\<open>midi_reader_inject\<close>. The first component says whether the loop left by
  its \<^verbatim>\<open>return (i)\<close>; the second is \<open>i\<close>. The frame given is read at the indices below its
  \<open>len\<close>, which lie in its array when \<open>len \<le> MIDI_FRAME_MAX\<close>.
\<close>

function inject_loop ::
    "midi_frame_t \<Rightarrow> nat \<Rightarrow> midi_reader_t \<Rightarrow> midi_reader_source_t \<Rightarrow>
     bool \<times> nat \<times> midi_reader_t \<times> midi_reader_source_t" where
  "inject_loop mf i reader src =
     (if i < len mf
      then (case midi_reader_push_byte reader src (uint (data mf ! i)) of
              (r, reader', src') \<Rightarrow>
                if r = MIDIF_COMPLETE \<or> r = MIDIF_NEXT
                then inject_loop mf (i + 1) reader' src'
                else (True, i, reader', src'))
      else (False, i, reader, src))"
  by pat_completeness auto
termination
  by (relation "measure (\<lambda>(mf, i, reader, src). len mf - i)") auto

declare inject_loop.simps [simp del]

text \<open>The source that \<^verbatim>\<open>midi_reader_inject\<close> sets up on its stack.\<close>

definition inject_source :: midi_reader_source_t where
  "inject_source = (fst (midi_reader_reset_source zero_source False))\<lparr>fd := -1\<rparr>"

definition midi_reader_inject :: "midi_reader_t \<Rightarrow> midi_frame_t \<Rightarrow> nat \<times> midi_reader_t" where
  "midi_reader_inject reader mf =
     (if len mf = 0 then (0, reader)
      else
        (case inject_loop mf 0 reader inject_source of
           (returned, i, reader, src) \<Rightarrow>
             if returned then (i, reader)
             else if running src \<noteq> 0
             then (i, fst (snd (midi_reader_push_byte reader src 0xfe)))
             else (i, reader)))"

section \<open>Update and the queue\<close>

lemma store_step_nsources [simp]: "nsources (store_step r mf) = nsources r"
  by (simp add: store_step_def Let_def)

lemma dump_step_nsources [simp]: "nsources (dump_step r mf) = nsources r"
  by (simp add: dump_step_def)

lemma debug_trace_nsources [simp]: "nsources (debug_trace r mf b) = nsources r"
  by (simp add: debug_trace_def)

lemma process_nsources [simp]:
  "nsources (fst (snd (midi_frame_process r s))) = nsources r"
  by (simp add: midi_frame_process_def Let_def split: option.split prod.split)

lemma push_byte_nsources [simp]:
  "nsources (fst (snd (midi_reader_push_byte r s d))) = nsources r"
  by (simp add: midi_reader_push_byte_def Let_def)

lemma push_byte_nsources_eq:
  "midi_reader_push_byte r s d = (st, r', s') \<Longrightarrow> nsources r' = nsources r"
  using push_byte_nsources [of r s d] by simp

text \<open>
  One turn of the loop of \<^verbatim>\<open>midi_reader_update\<close> on source \<open>src\<close>: a byte is taken and
  pushed, and the frame is reset after a final outcome.
\<close>

definition update_source :: "midi_reader_t \<Rightarrow> nat \<Rightarrow> midi_reader_t" where
  "update_source reader src =
     (let (b, s) = midi_reader_get_byte (sources reader ! src);
          (r, reader, s) = midi_reader_push_byte reader s b;
          s = (if r = MIDIF_COMPLETE \<or> r = MIDIF_ERROR \<or> r = MIDIF_IOERROR \<or>
                  r = MIDIF_SKIPPED
               then s\<lparr>current := midi_frame_reset (current s)\<rparr> else s)
      in reader\<lparr>sources := (sources reader)[src := s]\<rparr>)"

lemma update_source_nsources [simp]: "nsources (update_source r src) = nsources r"
  by (simp add: update_source_def Let_def split: prod.split)
    (metis push_byte_nsources_eq)

text \<open>The loop \<^verbatim>\<open>for (src = start, i = 0; i < reader->nsources; i++, src++)\<close>.\<close>

function update_loop :: "midi_reader_t \<Rightarrow> nat \<Rightarrow> nat \<Rightarrow> midi_reader_t" where
  "update_loop reader src i =
     (if i < nsources reader
      then
        let src = (if src \<ge> nsources reader then 0 else src)
        in update_loop (update_source reader src) (src + 1) (i + 1)
      else reader)"
  by pat_completeness auto
termination
  by (relation "measure (\<lambda>(reader, src, i). nsources reader - i)") auto

declare update_loop.simps [simp del]

definition midi_reader_update ::
    "midi_reader_t \<Rightarrow> (nat \<Rightarrow> u8 list) \<Rightarrow> bool \<times> midi_reader_t" where
  "midi_reader_update reader inps =
     (let reader = midi_reader_read reader inps;
          reader = reader\<lparr>start := (if start reader + 1 \<ge> int (nsources reader) then 0
                                     else start reader + 1)\<rparr>;
          reader = update_loop reader (nat (start reader)) 0
      in (q_len (frames reader) > 0 \<and> q_offset (frames reader) < q_len (frames reader),
          reader))"

text \<open>\<^verbatim>\<open>midi_reader_get_next\<close> returns a pointer into the queue, or \<^verbatim>\<open>NULL\<close>: here the
  frame found there, or \<open>None\<close>.\<close>

definition midi_reader_get_next ::
    "midi_reader_t \<Rightarrow> (nat \<Rightarrow> u8 list) \<Rightarrow> midi_frame_t option \<times> midi_reader_t" where
  "midi_reader_get_next reader inps =
     (case midi_reader_update reader inps of
        (avail, reader) \<Rightarrow>
          if \<not> avail then (None, reader)
          else (Some (q_frames (frames reader) ! q_offset (frames reader)),
                reader\<lparr>frames := (frames reader)\<lparr>q_offset := q_offset (frames reader) + 1\<rparr>\<rparr>))"

text \<open>Calls of \<^verbatim>\<open>midi_reader_get_next\<close> in a row, one for each element of the list (what
  the descriptors have to give at that call).\<close>

fun get_next_n ::
    "midi_reader_t \<Rightarrow> (nat \<Rightarrow> u8 list) list \<Rightarrow> midi_frame_t option list \<times> midi_reader_t" where
  "get_next_n reader [] = ([], reader)"
| "get_next_n reader (inps # rest) =
     (case midi_reader_get_next reader inps of
        (f, reader') \<Rightarrow>
          (case get_next_n reader' rest of (fs, reader'') \<Rightarrow> (f # fs, reader'')))"

definition midi_reader_clear_queue :: "midi_reader_t \<Rightarrow> midi_reader_t" where
  "midi_reader_clear_queue reader =
     (if q_len (frames reader) > 0
      then reader\<lparr>frames := \<lparr>q_len = 0, q_offset = 0,
                     q_frames = replicate MIDI_READER_FRAMES_MAX zero_frame\<rparr>\<rparr>
      else reader)"

section \<open>Statistics\<close>

definition midi_reader_get_stats :: "midi_reader_t \<Rightarrow> int \<Rightarrow> midi_reader_stats_t option" where
  "midi_reader_get_stats reader n =
     (if n < -1 \<or> n \<ge> int (nsources reader) then None
      else if n = -1 then Some (total reader)
      else Some (stats (sources reader ! nat n)))"

definition midi_reader_reset_stats :: "midi_reader_t \<Rightarrow> int \<Rightarrow> midi_reader_t" where
  "midi_reader_reset_stats reader n =
     (if n < -1 \<or> n \<ge> int (nsources reader) then reader
      else if n = -1 then reader\<lparr>total := zero_stats\<rparr>
      else reader\<lparr>sources := (sources reader)[nat n :=
                    (sources reader ! nat n)\<lparr>stats := zero_stats\<rparr>]\<rparr>)"

section \<open>Notions used to state the properties\<close>

text \<open>A reader just initialised, with no flag and no skip list, in an environment where
  nothing has happened.\<close>

definition reader0 :: midi_reader_t where
  "reader0 = midi_reader_init fresh_env 0 None"

text \<open>The reader after \<^verbatim>\<open>midi_reader_add_source (reader, 5, 0)\<close>.\<close>

definition one_source :: midi_reader_t where
  "one_source = snd (midi_reader_add_source reader0 5 0)"

text \<open>A reader at capacity: 64 sources, on the descriptors 0 to 63.\<close>

definition full_reader :: midi_reader_t where
  "full_reader = reader0\<lparr>sources := map (\<lambda>i. inject_source\<lparr>fd := int i\<rparr>) [0..<64],
     nsources := 64\<rparr>"

text \<open>The reader after \<open>n\<close> calls of \<^verbatim>\<open>midi_reader_add_source\<close>, on the descriptors 0 to
  \<open>n - 1\<close>.\<close>

definition add_first :: "nat \<Rightarrow> midi_reader_t" where
  "add_first n = foldl (\<lambda>r i. snd (midi_reader_add_source r (int i) 0)) reader0 [0..<n]"

text \<open>
  A reader with two sources, on the descriptors 5 and 6, whose counters are set to values
  other than zero: those of both sources and the cumulative ones.
\<close>

definition counted_reader :: midi_reader_t where
  "counted_reader =
     (let r = snd (midi_reader_add_source one_source 6 0)
      in r\<lparr>sources := (sources r)
             [0 := (sources r ! 0)\<lparr>stats := \<lparr>read = 7, errors = 1, skipped = 2, missed = 0\<rparr>\<rparr>,
              1 := (sources r ! 1)\<lparr>stats := \<lparr>read = 5, errors = 2, skipped = 1, missed = 0\<rparr>\<rparr>],
           total := \<lparr>read = 12, errors = 3, skipped = 3, missed = 4\<rparr>\<rparr>)"

text \<open>A reader that skips note-on on channel 1 and the timing clock.\<close>

definition skipping_reader :: midi_reader_t where
  "skipping_reader = midi_reader_init fresh_env 0 (Some [0x90, 0xF8])"

text \<open>
  A queue that holds frames not yet taken keeps them: its offset stays, its length does not
  shrink (nor pass the capacity), and the frames below the old length stay where they are.
\<close>

definition queue_grows :: "midi_frames_t \<Rightarrow> midi_frames_t \<Rightarrow> bool" where
  "queue_grows q q' \<longleftrightarrow>
     q_offset q' = q_offset q \<and> q_len q \<le> q_len q' \<and>
     q_len q' \<le> max (q_len q) MIDI_READER_FRAMES_MAX \<and>
     length (q_frames q') = length (q_frames q) \<and>
     take (q_len q) (q_frames q') = take (q_len q) (q_frames q)"

text \<open>
  The frame that \<^verbatim>\<open>midi_frame_process\<close> stores for a source whose frame is accepted: the
  frame after channel translation, expansion and the callback.
\<close>

definition stored_frame :: "midi_reader_t \<Rightarrow> midi_reader_source_t \<Rightarrow> midi_frame_t" where
  "stored_frame r s =
     (let mf = expand_step r (channel_translation s (current s))
      in case callback r of None \<Rightarrow> mf | Some cb \<Rightarrow> snd (cb mf))"

text \<open>
  A frame that \<^verbatim>\<open>midi_frame_process\<close> neither skips nor reports as an error: it is not empty,
  its first byte is not in the skip list, and the callback, if there is one, returns
  \<open>MIDIF_COMPLETE\<close> and does not empty it.
\<close>

definition acceptable :: "midi_reader_t \<Rightarrow> midi_reader_source_t \<Rightarrow> bool" where
  "acceptable r s \<longleftrightarrow>
     len (current s) \<noteq> 0 \<and> \<not> frame_skipped (to_skip r) (current s) \<and>
     (case callback r of None \<Rightarrow> True
      | Some cb \<Rightarrow>
          fst (cb (expand_step r (channel_translation s (current s)))) = MIDIF_COMPLETE \<and>
          len (snd (cb (expand_step r (channel_translation s (current s))))) \<noteq> 0)"

text \<open>Finalizations in a row, one for each source of the list (with its frame in
  \<open>current\<close>), and no other call in between; the outcome and the source left by each.\<close>

fun process_all ::
    "midi_reader_t \<Rightarrow> midi_reader_source_t list \<Rightarrow>
     (midi_frame_state_t \<times> midi_reader_source_t) list \<times> midi_reader_t" where
  "process_all r [] = ([], r)"
| "process_all r (s # ss) =
     (case midi_frame_process r s of
        (st, r', s') \<Rightarrow>
          (case process_all r' ss of (outs, r'') \<Rightarrow> ((st, s') # outs, r'')))"

text \<open>A source whose frame in progress is the timing clock F8.\<close>

definition clock_source :: midi_reader_source_t where
  "clock_source = inject_source\<lparr>current := mk_frame [0xF8]\<rparr>"

text \<open>
  A callback leaves the frame it is given an array of \<open>MIDI_FRAME_MAX\<close> bytes, as the type
  \<^verbatim>\<open>midi_frame_t\<close> has it.
\<close>

definition cb_ok :: "midi_reader_callback_t \<Rightarrow> bool" where
  "cb_ok cb \<longleftrightarrow> (\<forall>f. length (data (snd (cb f))) = MIDI_FRAME_MAX)"

text \<open>
  The states of a reader that the public operations reach from \<^verbatim>\<open>midi_reader_init\<close>. The
  last four rules add the states inside \<^verbatim>\<open>midi_reader_update\<close> (after the reads, after the
  new \<open>start\<close>, after each turn of its loop) and inside \<^verbatim>\<open>midi_reader_inject\<close> (after each
  push), which is where the byte state machine runs.
\<close>

inductive reachable :: "midi_reader_t \<Rightarrow> bool" where
  init: "- 1 \<le> start e \<Longrightarrow> reachable (midi_reader_init e fl skip)"
| add_source: "reachable r \<Longrightarrow> reachable (snd (midi_reader_add_source r fd' chan))"
| remove_source: "reachable r \<Longrightarrow> reachable (snd (midi_reader_remove_source r fd'))"
| set_dump_fd: "reachable r \<Longrightarrow> reachable (snd (midi_reader_set_dump_fd r fd'))"
| set_callback_none: "reachable r \<Longrightarrow> reachable (midi_reader_set_callback r None)"
| set_callback: "reachable r \<Longrightarrow> cb_ok cb \<Longrightarrow> reachable (midi_reader_set_callback r (Some cb))"
| close: "reachable r \<Longrightarrow> reachable (midi_reader_close r)"
| update: "reachable r \<Longrightarrow> reachable (snd (midi_reader_update r inps))"
| get_next: "reachable r \<Longrightarrow> reachable (snd (midi_reader_get_next r inps))"
| clear_queue: "reachable r \<Longrightarrow> reachable (midi_reader_clear_queue r)"
| inject: "reachable r \<Longrightarrow> reachable (snd (midi_reader_inject r mf))"
| reset_stats: "reachable r \<Longrightarrow> reachable (midi_reader_reset_stats r n)"
| reinit: "reachable r \<Longrightarrow> reachable (midi_reader_init r fl skip)"
| in_update_read: "reachable r \<Longrightarrow> reachable (midi_reader_read r inps)"
| in_update_start: "reachable r \<Longrightarrow>
      reachable (r\<lparr>start := (if start r + 1 \<ge> int (nsources r) then 0 else start r + 1)\<rparr>)"
| in_update_source: "reachable r \<Longrightarrow> src < nsources r \<Longrightarrow> reachable (update_source r src)"
| in_inject_push: "reachable r \<Longrightarrow> reachable (fst (snd (midi_reader_push_byte r s d)))"

text \<open>
  The calls of \<^verbatim>\<open>midi_reader_push_byte\<close>: by \<^verbatim>\<open>midi_reader_update\<close>, on a source of the
  reader from which a byte has just been taken; by \<^verbatim>\<open>midi_reader_inject\<close>, on its own source,
  as it starts and as each push leaves it.
\<close>

inductive push_site :: "midi_reader_t \<Rightarrow> midi_reader_source_t \<Rightarrow> bool" where
  in_update: "reachable r \<Longrightarrow> src < nsources r \<Longrightarrow>
      push_site r (snd (midi_reader_get_byte (sources r ! src)))"
| in_inject: "reachable r \<Longrightarrow> push_site r inject_source"
| in_inject_next: "push_site r s \<Longrightarrow> midi_reader_push_byte r s d = (st, r', s') \<Longrightarrow>
      push_site r' s'"

text \<open>The condition under which \<^verbatim>\<open>midi_reader_push_byte\<close> enters its branch
  \<^verbatim>\<open>if (src->running != 0 && (b & 0x80) != 0)\<close>.\<close>

definition takes_boundary :: "midi_reader_source_t \<Rightarrow> int \<Rightarrow> bool" where
  "takes_boundary s d \<longleftrightarrow>
     0 \<le> d \<and> d \<le> 0xFF \<and> len (current s) \<noteq> MIDI_FRAME_MAX \<and>
     running s \<noteq> 0 \<and> (word_of_int d :: u8) AND 0x80 \<noteq> 0"

text \<open>
  What holds of every source: while a running status is remembered, the frame in progress
  starts with it.
\<close>

definition src_inv :: "midi_reader_source_t \<Rightarrow> bool" where
  "src_inv s \<longleftrightarrow>
     length (data (current s)) = MIDI_FRAME_MAX \<and>
     (running s = 0 \<or>
      (1 \<le> len (current s) \<and> len (current s) \<le> MIDI_FRAME_MAX \<and>
       data (current s) ! 0 = running s \<and> 0x80 \<le> running s \<and> running s \<le> 0xef))"

definition reader_inv :: "midi_reader_t \<Rightarrow> bool" where
  "reader_inv r \<longleftrightarrow>
     length (sources r) = MIDI_READER_IN_MAX \<and> nsources r \<le> MIDI_READER_IN_MAX \<and>
     list_all src_inv (sources r) \<and>
     (case callback r of None \<Rightarrow> True | Some cb \<Rightarrow> cb_ok cb)"

text \<open>The outcomes after which \<^verbatim>\<open>midi_reader_update\<close> resets the frame.\<close>

definition final_state :: "midi_frame_state_t \<Rightarrow> bool" where
  "final_state st \<longleftrightarrow>
     st = MIDIF_COMPLETE \<or> st = MIDIF_ERROR \<or> st = MIDIF_IOERROR \<or> st = MIDIF_SKIPPED"

section \<open>Running-status expansion of short frames\<close>

text \<open>
  C3, as amended. A frame that starts with a channel-voice status (0x80 to 0xEF) and has
  length exactly 3 is left as it is and the expansion reports success; with length 2 the
  expansion reports failure (the data bytes do not pair up) and also leaves the frame as
  it is.
\<close>

theorem expand_running_len3_len2:
  assumes "0x80 \<le> data mf ! 0" and "data mf ! 0 \<le> 0xef"
  shows "(len mf = 3 \<longrightarrow> midi_frame_expand_running mf = (True, mf)) \<and>
         (len mf = 2 \<longrightarrow> midi_frame_expand_running mf = (False, mf))"
  using assms by (auto simp: midi_frame_expand_running_def)

theorem expand_running_len3_len2_witness:
  "(0x80 :: u8) \<le> data (mk_frame [0x90, 0x40, 0x7f]) ! 0 \<and>
   data (mk_frame [0x90, 0x40, 0x7f]) ! 0 \<le> 0xef \<and>
   len (mk_frame [0x90, 0x40, 0x7f]) = 3 \<and>
   midi_frame_expand_running (mk_frame [0x90, 0x40, 0x7f]) = (True, mk_frame [0x90, 0x40, 0x7f]) \<and>
   (0x80 :: u8) \<le> data (mk_frame [0xC0, 0x05]) ! 0 \<and>
   data (mk_frame [0xC0, 0x05]) ! 0 \<le> 0xef \<and>
   len (mk_frame [0xC0, 0x05]) = 2 \<and>
   midi_frame_expand_running (mk_frame [0xC0, 0x05]) = (False, mk_frame [0xC0, 0x05])"
  using expand_running_len3_len2 [of "mk_frame [0x90, 0x40, 0x7f]"]
    expand_running_len3_len2 [of "mk_frame [0xC0, 0x05]"]
  by (simp add: mk_frame_def)

text \<open>
  C3 as stated fails on the program change C0 05, a frame of length 2 with a
  channel-voice status: the expansion returns false.
\<close>

theorem expand_running_short_counterexample:
  "\<not> (midi_frame_expand_running (mk_frame [0xC0, 0x05]) = (True, mk_frame [0xC0, 0x05]))"
  by (simp add: midi_frame_expand_running_def mk_frame_def)

text \<open>
  A lone status byte (length 1) is not kept either: the expansion reports success and
  hands back the frame emptied by \<open>midi_frame_reset\<close>.
\<close>

lemma expand_running_len1:
  "fst (midi_frame_expand_running (mk_frame [0x90])) \<and>
   frame_bytes (snd (midi_frame_expand_running (mk_frame [0x90]))) = []"
  by (simp add: midi_frame_expand_running_def mk_frame_def MIDI_FRAME_MAX_def
      midi_frame_reset_def expand_loop.simps frame_bytes_def)

section \<open>Removing a source\<close>

lemma one_source_simps:
  "nsources one_source = 1" "length (sources one_source) = 64"
  "fd (sources one_source ! 0) = 5" "closed_fds one_source = []"
  by (simp_all add: one_source_def reader0_def midi_reader_init_def midi_reader_add_source_def
      fresh_env_def MIDI_READER_IN_MAX_def)

lemma shift_sources_snd: "j \<le> MIDI_READER_IN_MAX \<Longrightarrow> snd (shift_sources srcs j) = MIDI_READER_IN_MAX"
  by (induction srcs j rule: shift_sources.induct) (subst shift_sources.simps, simp)

lemma shift_sources_length [simp]: "length (fst (shift_sources srcs j)) = length srcs"
  by (induction srcs j rule: shift_sources.induct) (subst shift_sources.simps, simp)

lemma shift_sources_nth:
  "0 < j \<Longrightarrow> j \<le> MIDI_READER_IN_MAX \<Longrightarrow> length srcs = MIDI_READER_IN_MAX \<Longrightarrow> k < MIDI_READER_IN_MAX \<Longrightarrow>
   fst (shift_sources srcs j) ! k =
     (if k < j - 1 then srcs ! k else if k < MIDI_READER_IN_MAX - 1 then srcs ! (k + 1) else srcs ! k)"
proof (induction srcs j rule: shift_sources.induct)
  case (1 srcs j)
  show ?case
  proof (cases "j < MIDI_READER_IN_MAX")
    case True
    then show ?thesis
      using 1 by (subst shift_sources.simps) (auto simp: nth_list_update)
  next
    case False
    then show ?thesis
      using 1 by (subst shift_sources.simps) (auto)
  qed
qed

lemma find_source_le: "find_source r fd' \<le> nsources r"
  by (simp add: find_source_def) (metis length_takeWhile_le length_take min.cobounded2 order_trans)

lemma find_source_found:
  "find_source r fd' < nsources r \<Longrightarrow> nsources r \<le> length (sources r) \<Longrightarrow>
   fd (sources r ! find_source r fd') = fd'"
  unfolding find_source_def
  using nth_length_takeWhile [of "\<lambda>s. fd s \<noteq> fd'" "take (nsources r) (sources r)"]
  by simp

lemma find_source_present:
  assumes "i < nsources r" "nsources r \<le> length (sources r)" "fd (sources r ! i) = fd'"
  shows "find_source r fd' < nsources r"
proof -
  have "sources r ! i \<in> set (take (nsources r) (sources r))"
    using assms by (metis length_take min.absorb2 nth_mem nth_take)
  then have "\<exists>s \<in> set (take (nsources r) (sources r)). \<not> fd s \<noteq> fd'"
    using assms by auto
  then have "takeWhile (\<lambda>s. fd s \<noteq> fd') (take (nsources r) (sources r)) \<noteq>
      take (nsources r) (sources r)"
    by simp
  then have "length (takeWhile (\<lambda>s. fd s \<noteq> fd') (take (nsources r) (sources r))) \<noteq>
      length (take (nsources r) (sources r))"
    by (metis takeWhile_eq_take take_all order_refl)
  then show ?thesis
    using assms length_takeWhile_le [of "\<lambda>s. fd s \<noteq> fd'" "take (nsources r) (sources r)"]
    by (simp add: find_source_def)
qed

lemma find_source_absent:
  assumes "\<forall>i<nsources r. fd (sources r ! i) \<noteq> fd'" "nsources r \<le> length (sources r)"
  shows "find_source r fd' = nsources r"
proof -
  have "\<forall>s \<in> set (take (nsources r) (sources r)). fd s \<noteq> fd'"
    using assms by (fastforce simp: in_set_conv_nth)
  then have tw: "takeWhile (\<lambda>s. fd s \<noteq> fd') (take (nsources r) (sources r)) =
      take (nsources r) (sources r)"
    by (rule takeWhile_eq_all_conv [THEN iffD2])
  show ?thesis unfolding find_source_def tw using assms by simp
qed

lemma reset_source_n_out_of_range:
  "midi_reader_reset_source_n r MIDI_READER_IN_MAX to_close = r"
  by (simp add: midi_reader_reset_source_n_def)

lemma remove_source_closes_zero:
  assumes "0 \<le> fd'" "i < nsources r" "nsources r \<le> length (sources r)" "fd (sources r ! i) = fd'"
     "nsources r \<le> MIDI_READER_IN_MAX"
  shows "fst (midi_reader_remove_source r fd') \<and>
         closed_fds (snd (midi_reader_remove_source r fd')) = closed_fds r @ [0]"
proof -
  have f: "find_source r fd' < nsources r" using assms by (intro find_source_present) auto
  have s: "snd (shift_sources srcs (Suc (find_source r fd'))) = MIDI_READER_IN_MAX" for srcs
    using f assms by (intro shift_sources_snd) simp
  show ?thesis
    using f assms s
    by (simp add: midi_reader_remove_source_def Let_def split: prod.split)
       (auto simp: midi_reader_reset_source_n_def midi_reader_reset_source_def zero_source_def)
qed

text \<open>
  What \<^verbatim>\<open>midi_reader_remove_source\<close> does get right: a descriptor that no source has is
  refused and nothing changes; a descriptor that is found takes one source off the count
  and the sources after it move one place down, in their order.
\<close>

lemma remove_source_absent:
  assumes "\<forall>i<nsources r. fd (sources r ! i) \<noteq> fd'" "nsources r \<le> length (sources r)"
  shows "midi_reader_remove_source r fd' = (False, r)"
  using find_source_absent [OF assms]
  by (simp add: midi_reader_remove_source_def)

lemma remove_source_compacts:
  assumes "0 \<le> fd'" "i < nsources r" "fd (sources r ! i) = fd'"
    "nsources r \<le> MIDI_READER_IN_MAX" "length (sources r) = MIDI_READER_IN_MAX"
    "k < nsources r - 1"
  shows "nsources (snd (midi_reader_remove_source r fd')) = nsources r - 1 \<and>
         sources (snd (midi_reader_remove_source r fd')) ! k =
           (if k < find_source r fd' then sources r ! k else sources r ! (k + 1))"
proof -
  have f: "find_source r fd' < nsources r" using assms by (intro find_source_present) auto
  have s: "snd (shift_sources srcs (Suc (find_source r fd'))) = MIDI_READER_IN_MAX" for srcs
    using f assms by (intro shift_sources_snd) simp
  define r1 where "r1 = midi_reader_reset_source_n r (find_source r fd') True"
  have l1: "length (sources r1) = MIDI_READER_IN_MAX"
    using assms by (simp add: r1_def midi_reader_reset_source_n_def split: prod.split)
  have n1: "sources r1 ! m = sources r ! m" if "m \<noteq> find_source r fd'" for m
    using that by (simp add: r1_def midi_reader_reset_source_n_def split: prod.split)
  have sh: "fst (shift_sources (sources r1) (Suc (find_source r fd'))) ! k =
      (if k < find_source r fd' then sources r1 ! k else sources r1 ! (k + 1))"
    using shift_sources_nth [of "Suc (find_source r fd')" "sources r1" k] f assms l1
    by simp
  have res: "snd (midi_reader_remove_source r fd') =
      (r1\<lparr>sources := fst (shift_sources (sources r1) (Suc (find_source r fd')))\<rparr>)
        \<lparr>nsources := nsources r - 1\<rparr>"
  proof -
    obtain srcs where sp: "shift_sources (sources r1) (Suc (find_source r fd')) =
        (srcs, MIDI_READER_IN_MAX)"
      using s [of "sources r1"] by (cases "shift_sources (sources r1) (Suc (find_source r fd'))") auto
    have ns: "nsources r1 = nsources r"
      by (simp add: r1_def midi_reader_reset_source_n_def split: prod.split)
    show ?thesis
      using f assms(1)
      by (simp add: midi_reader_remove_source_def Let_def r1_def [symmetric] sp
          reset_source_n_out_of_range ns)
  qed
  show ?thesis
    using sh n1 by (simp add: res)
qed

text \<open>
  C4. Removing the source of descriptor \<open>fd\<close> is to return true, close \<open>fd\<close> and compact the
  list. On the reader whose one source has descriptor 5, \<^verbatim>\<open>midi_reader_remove_source\<close>
  returns true, and the one descriptor it gives to \<^verbatim>\<open>close\<close> is 0, not 5:
  \<^verbatim>\<open>midi_reader_reset_source\<close> zeroes the struct before it reads \<open>src->fd\<close>.
\<close>

theorem remove_source_closes_descriptor_0:
  "fst (midi_reader_remove_source one_source 5) \<and>
   closed_fds (snd (midi_reader_remove_source one_source 5)) = [0]"
  using remove_source_closes_zero [of 5 0 one_source]
  by (simp add: one_source_simps MIDI_READER_IN_MAX_def)

section \<open>Adding a source\<close>

lemma contains_iff:
  "list_ex (\<lambda>s. fd s = fd') (take n srcs) \<longleftrightarrow>
   (\<exists>i. i < n \<and> i < length srcs \<and> fd (srcs ! i) = fd')"
proof
  assume "list_ex (\<lambda>s. fd s = fd') (take n srcs)"
  then obtain s where s: "s \<in> set (take n srcs)" "fd s = fd'"
    by (auto simp: list_ex_iff)
  then obtain i where "i < length (take n srcs)" "take n srcs ! i = s"
    by (auto simp: in_set_conv_nth)
  with s show "\<exists>i. i < n \<and> i < length srcs \<and> fd (srcs ! i) = fd'"
    by (intro exI [of _ i]) auto
next
  assume "\<exists>i. i < n \<and> i < length srcs \<and> fd (srcs ! i) = fd'"
  then obtain i where i: "i < n" "i < length srcs" "fd (srcs ! i) = fd'"
    by blast
  then have "take n srcs ! i \<in> set (take n srcs)"
    by (intro nth_mem) simp
  with i show "list_ex (\<lambda>s. fd s = fd') (take n srcs)"
    by (auto simp: list_ex_iff)
qed

lemma fresh_with_fd:
  "(fst (midi_reader_reset_source zero_source False))\<lparr>fd := a, channel := - 1\<rparr> =
   inject_source\<lparr>fd := a\<rparr>"
  by (simp add: inject_source_def midi_reader_reset_source_def Let_def)

lemma add_first_eq:
  "n \<le> 64 \<Longrightarrow>
   add_first n = reader0\<lparr>sources := map (\<lambda>i. inject_source\<lparr>fd := int i\<rparr>) [0..<n] @
       replicate (64 - n) (fst (midi_reader_reset_source zero_source False)),
     nsources := n\<rparr>"
proof (induction n)
  case 0
  show ?case
    by (simp add: add_first_def reader0_def midi_reader_init_def MIDI_READER_IN_MAX_def)
next
  case (Suc n)
  let ?S0 = "fst (midi_reader_reset_source zero_source False)"
  let ?f = "\<lambda>i. inject_source\<lparr>fd := int i\<rparr>"
  let ?r = "reader0\<lparr>sources := map ?f [0..<n] @ replicate (64 - n) ?S0, nsources := n\<rparr>"
  have r: "add_first n = ?r" using Suc by simp
  have absent: "\<not> list_ex (\<lambda>s. fd s = int n) (take (nsources ?r) (sources ?r))"
    by (auto simp: list_ex_iff)
  have rep: "replicate (64 - n) ?S0 = ?S0 # replicate (64 - Suc n) ?S0"
    using Suc.prems by (cases "64 - n") simp_all
  have nth: "sources ?r ! n = ?S0"
    using rep by (simp add: nth_append)
  have upd: "(sources ?r)[n := ?f n] = map ?f [0..<Suc n] @ replicate (64 - Suc n) ?S0"
    using rep by (simp add: list_update_append)
  have "snd (midi_reader_add_source ?r (int n) 0) =
      ?r\<lparr>sources := (sources ?r)[n := ?f n], nsources := Suc n\<rparr>"
    using Suc.prems absent nth
    by (simp add: midi_reader_add_source_def MIDI_READER_IN_MAX_def fresh_with_fd del: upt_Suc)
  then have "snd (midi_reader_add_source ?r (int n) 0) =
      reader0\<lparr>sources := map ?f [0..<Suc n] @ replicate (64 - Suc n) ?S0, nsources := Suc n\<rparr>"
    by (simp only: upd) simp
  moreover have "add_first (Suc n) = snd (midi_reader_add_source (add_first n) (int n) 0)"
    by (simp add: add_first_def)
  ultimately show ?case by (simp only: r)
qed

text \<open>The reader at capacity is the one that 64 calls of \<^verbatim>\<open>midi_reader_add_source\<close>
  build.\<close>

lemma full_reader_built: "full_reader = add_first 64"
  by (simp add: add_first_eq full_reader_def)

text \<open>
  C8, as amended. On a reader with fewer than 64 sources, one of which (at index \<open>i\<close>) has
  the descriptor \<open>fd'\<close>, a descriptor that is not negative, \<^verbatim>\<open>midi_reader_add_source\<close>
  returns true and leaves the reader as it is. On a reader with 64 sources it returns false
  and leaves the reader as it is, whether a source has the descriptor or not.
\<close>

theorem add_source_present_or_full:
  "(0 \<le> fd' \<and> i < nsources r \<and> nsources r \<le> length (sources r) \<and>
    fd (sources r ! i) = fd' \<and> nsources r < MIDI_READER_IN_MAX \<longrightarrow>
      midi_reader_add_source r fd' chan = (True, r)) \<and>
   (MIDI_READER_IN_MAX \<le> nsources r \<longrightarrow> midi_reader_add_source r fd' chan = (False, r))"
proof (intro conjI impI)
  assume a: "0 \<le> fd' \<and> i < nsources r \<and> nsources r \<le> length (sources r) \<and>
    fd (sources r ! i) = fd' \<and> nsources r < MIDI_READER_IN_MAX"
  then have "list_ex (\<lambda>s. fd s = fd') (take (nsources r) (sources r))"
    by (auto simp: contains_iff)
  with a show "midi_reader_add_source r fd' chan = (True, r)"
    by (simp add: midi_reader_add_source_def)
next
  assume "MIDI_READER_IN_MAX \<le> nsources r"
  then show "midi_reader_add_source r fd' chan = (False, r)"
    by (simp add: midi_reader_add_source_def)
qed

theorem add_source_present_or_full_witness:
  "(0::int) \<le> 5 \<and> 0 < nsources one_source \<and>
   nsources one_source \<le> length (sources one_source) \<and>
   fd (sources one_source ! 0) = 5 \<and> nsources one_source < MIDI_READER_IN_MAX \<and>
   midi_reader_add_source one_source 5 3 = (True, one_source) \<and>
   MIDI_READER_IN_MAX \<le> nsources full_reader \<and>
   midi_reader_add_source full_reader 70 3 = (False, full_reader)"
  using add_source_present_or_full [of 5 0 one_source 3]
    add_source_present_or_full [of 70 0 full_reader 3]
  by (simp add: one_source_simps MIDI_READER_IN_MAX_def full_reader_def)

text \<open>
  C8 as stated fails on the reader at capacity: its source 5 has the descriptor 5, and
  adding the descriptor 5 again returns false.
\<close>

theorem add_source_full_counterexample:
  "fd (sources full_reader ! 5) = 5 \<and> 5 < nsources full_reader \<and>
   \<not> fst (midi_reader_add_source full_reader 5 0)"
  by (simp add: full_reader_def midi_reader_add_source_def MIDI_READER_IN_MAX_def)

section \<open>Resetting the statistics\<close>

lemma counted_reader_simps:
  "nsources counted_reader = 2" "length (sources counted_reader) = 64"
  "total counted_reader = \<lparr>read = 12, errors = 3, skipped = 3, missed = 4\<rparr>"
  "stats (sources counted_reader ! 0) = \<lparr>read = 7, errors = 1, skipped = 2, missed = 0\<rparr>"
  "stats (sources counted_reader ! Suc 0) = \<lparr>read = 5, errors = 2, skipped = 1, missed = 0\<rparr>"
  "fd (sources counted_reader ! 0) = 5" "fd (sources counted_reader ! Suc 0) = 6"
  by (simp_all add: counted_reader_def Let_def one_source_def reader0_def midi_reader_init_def
      midi_reader_add_source_def fresh_env_def MIDI_READER_IN_MAX_def contains_iff)

text \<open>
  C10. \<^verbatim>\<open>midi_reader_reset_stats\<close> with index \<open>-1\<close> zeroes the cumulative counters and
  nothing else, so no counter of a source changes; with an index \<open>n\<close> of a source
  (\<open>0 \<le> n < nsources\<close>) it zeroes the counters of source \<open>n\<close> and nothing else: the
  cumulative counters, the other fields of source \<open>n\<close> and every other source stay; with
  any other index the reader is unchanged.
\<close>

theorem reset_stats_frame:
  assumes "nsources r \<le> length (sources r)"
  shows "total (midi_reader_reset_stats r (-1)) = zero_stats \<and>
         sources (midi_reader_reset_stats r (-1)) = sources r \<and>
         midi_reader_reset_stats r (-1) = r\<lparr>total := zero_stats\<rparr> \<and>
         (0 \<le> n \<and> n < int (nsources r) \<longrightarrow>
            stats (sources (midi_reader_reset_stats r n) ! nat n) = zero_stats \<and>
            sources (midi_reader_reset_stats r n) ! nat n =
              (sources r ! nat n)\<lparr>stats := zero_stats\<rparr> \<and>
            total (midi_reader_reset_stats r n) = total r \<and>
            length (sources (midi_reader_reset_stats r n)) = length (sources r) \<and>
            (\<forall>i. i \<noteq> nat n \<longrightarrow>
               sources (midi_reader_reset_stats r n) ! i = sources r ! i) \<and>
            midi_reader_reset_stats r n =
              r\<lparr>sources := sources (midi_reader_reset_stats r n)\<rparr>) \<and>
         (n < -1 \<or> int (nsources r) \<le> n \<longrightarrow> midi_reader_reset_stats r n = r)"
  using assms by (auto simp: midi_reader_reset_stats_def)

text \<open>
  On the reader with two sources and counters that are not zero: index \<open>-1\<close> zeroes the
  cumulative counters and keeps those of both sources; index 0 (and index 1) zeroes the
  counters of that source and keeps the other source's and the cumulative ones; the
  indices 2 and \<open>-2\<close> change nothing.
\<close>

theorem reset_stats_frame_witness:
  "nsources counted_reader \<le> length (sources counted_reader) \<and>
   total counted_reader = \<lparr>read = 12, errors = 3, skipped = 3, missed = 4\<rparr> \<and>
   total counted_reader \<noteq> zero_stats \<and>
   stats (sources counted_reader ! 0) \<noteq> zero_stats \<and>
   stats (sources counted_reader ! 1) \<noteq> zero_stats \<and>
   total (midi_reader_reset_stats counted_reader (-1)) = zero_stats \<and>
   stats (sources (midi_reader_reset_stats counted_reader (-1)) ! 0) =
     \<lparr>read = 7, errors = 1, skipped = 2, missed = 0\<rparr> \<and>
   stats (sources (midi_reader_reset_stats counted_reader (-1)) ! 1) =
     \<lparr>read = 5, errors = 2, skipped = 1, missed = 0\<rparr> \<and>
   (0::int) \<le> 0 \<and> 0 < int (nsources counted_reader) \<and>
   stats (sources (midi_reader_reset_stats counted_reader 0) ! 0) = zero_stats \<and>
   fd (sources (midi_reader_reset_stats counted_reader 0) ! 0) = 5 \<and>
   stats (sources (midi_reader_reset_stats counted_reader 0) ! 1) =
     \<lparr>read = 5, errors = 2, skipped = 1, missed = 0\<rparr> \<and>
   total (midi_reader_reset_stats counted_reader 0) =
     \<lparr>read = 12, errors = 3, skipped = 3, missed = 4\<rparr> \<and>
   (0::int) \<le> 1 \<and> 1 < int (nsources counted_reader) \<and>
   stats (sources (midi_reader_reset_stats counted_reader 1) ! 1) = zero_stats \<and>
   stats (sources (midi_reader_reset_stats counted_reader 1) ! 0) =
     \<lparr>read = 7, errors = 1, skipped = 2, missed = 0\<rparr> \<and>
   total (midi_reader_reset_stats counted_reader 1) =
     \<lparr>read = 12, errors = 3, skipped = 3, missed = 4\<rparr> \<and>
   int (nsources counted_reader) \<le> 2 \<and>
   midi_reader_reset_stats counted_reader 2 = counted_reader \<and>
   midi_reader_reset_stats counted_reader (-2) = counted_reader"
  using reset_stats_frame [of counted_reader 0] reset_stats_frame [of counted_reader 1]
    reset_stats_frame [of counted_reader 2] reset_stats_frame [of counted_reader "-2"]
  by (simp add: counted_reader_simps zero_stats_def)

section \<open>The skip list\<close>

text \<open>
  C7. When a skip list is set and the first byte of a completed frame (its length is not
  0) is one of its entries, \<^verbatim>\<open>midi_frame_process\<close> returns \<open>MIDIF_SKIPPED\<close>, adds one to
  \<open>skipped\<close> in the source and in the cumulative counters, and the queue, the writes to the
  dump descriptor and the frames handed to the callback are what they were: the frame is
  not stored, not dumped and not given to the callback.
\<close>

theorem process_skipped:
  assumes "to_skip r = Some ps"
    and "data (current src) ! 0 \<in> set (takeWhile (\<lambda>p. p \<noteq> 0) ps)"
    and "len (current src) \<noteq> 0"
  shows "fst (midi_frame_process r src) = MIDIF_SKIPPED \<and>
         skipped (stats (snd (snd (midi_frame_process r src)))) = skipped (stats src) + 1 \<and>
         skipped (total (fst (snd (midi_frame_process r src)))) = skipped (total r) + 1 \<and>
         frames (fst (snd (midi_frame_process r src))) = frames r \<and>
         dump_out (fst (snd (midi_frame_process r src))) = dump_out r \<and>
         cb_log (fst (snd (midi_frame_process r src))) = cb_log r \<and>
         current (snd (snd (midi_frame_process r src))) = current src"
  using assms
  by (simp add: midi_frame_process_def frame_skipped_def skip_entry_def Let_def debug_trace_def
      count_skipped_def count_read_def)

theorem process_skipped_witness:
  "to_skip skipping_reader = Some [0x90, 0xF8] \<and>
   data (current (inject_source\<lparr>current := mk_frame [0xF8]\<rparr>)) ! 0
     \<in> set (takeWhile (\<lambda>p. p \<noteq> 0) [0x90, 0xF8 :: u8]) \<and>
   len (current (inject_source\<lparr>current := mk_frame [0xF8]\<rparr>)) \<noteq> 0 \<and>
   fst (midi_frame_process skipping_reader (inject_source\<lparr>current := mk_frame [0xF8]\<rparr>))
     = MIDIF_SKIPPED \<and>
   frames (fst (snd (midi_frame_process skipping_reader
       (inject_source\<lparr>current := mk_frame [0xF8]\<rparr>)))) = frames skipping_reader"
  using process_skipped [of skipping_reader "[0x90, 0xF8]"
      "inject_source\<lparr>current := mk_frame [0xF8]\<rparr>"]
  by (simp add: skipping_reader_def midi_reader_init_def mk_frame_def)

section \<open>Bytes and the length table\<close>

lemma bit7: "(b :: u8) AND 0x80 = 0 \<longleftrightarrow> \<not> bit b 7"
  using and_exp_eq_0_iff_not_bit [of b 7] by simp

lemma lt128: "(b :: u8) < 0x80 \<longleftrightarrow> \<not> bit b 7"
proof -
  have 1: "bit b 7 \<longleftrightarrow> odd (unat b div 128)"
    using bit_unsigned_iff [of b 7, where ?'a = nat] by (simp add: bit_iff_odd)
  have 2: "unat b < 256"
    using unsigned_less [of b, where ?'a = nat] by simp
  have 3: "b < 0x80 \<longleftrightarrow> unat b < 128"
    by (simp add: word_less_nat_alt)
  have "odd (n div 128) \<longleftrightarrow> 128 \<le> n" if "n < 256" for n :: nat
  proof (cases "n < 128")
    case True
    then show ?thesis by simp
  next
    case False
    with that have "n div 128 = 1" by simp
    with False show ?thesis by simp
  qed
  with 1 2 3 show ?thesis by auto
qed

lemma and_0x80_iff: "(b :: u8) AND 0x80 = 0 \<longleftrightarrow> b < 0x80"
  by (simp add: bit7 lt128)

lemma table_head: "list_all (\<lambda>v. v = 2 \<or> v = 3) (take 112 midi_frame_len)"
  by (simp add: midi_frame_len_def)

lemma table_channel_voice:
  assumes "n < 112"
  shows "midi_frame_len ! n = 2 \<or> midi_frame_len ! n = 3"
proof -
  have "length (take 112 midi_frame_len) = 112"
    by (simp add: midi_frame_len_def)
  with assms table_head have "take 112 midi_frame_len ! n = 2 \<or> take 112 midi_frame_len ! n = 3"
    by (simp add: list_all_length)
  with assms show ?thesis by simp
qed

lemma table_status:
  assumes "0x80 \<le> (s :: u8)" "s \<le> 0xef"
  shows "midi_frame_len ! (unat s - 0x80) = 2 \<or> midi_frame_len ! (unat s - 0x80) = 3"
proof -
  have "unat s \<le> 239" using assms(2) by (simp add: word_le_nat_alt)
  then show ?thesis by (intro table_channel_voice) simp
qed

section \<open>Steps of the byte state machine\<close>

lemma uint_u8_range [simp]: "\<not> uint (b :: u8) < 0" "\<not> 255 < uint b"
  using uint_lt2p [of b] by simp_all

lemma frame_append_simps [simp]:
  "len f < 255 \<Longrightarrow> len (frame_append f b) = len f + 1"
  "length (data (frame_append f b)) = length (data f)"
  "len f \<noteq> 0 \<Longrightarrow> data (frame_append f b) ! 0 = data f ! 0"
  "len f = 0 \<Longrightarrow> 0 < length (data f) \<Longrightarrow> data (frame_append f b) ! 0 = b"
  by (simp_all add: frame_append_def)

lemma frame_append_bytes:
  "len f < length (data f) \<Longrightarrow> len f < 255 \<Longrightarrow>
   frame_bytes (frame_append f b) = frame_bytes f @ [b]"
  by (simp add: frame_append_def frame_bytes_def take_Suc_conv_app_nth)

lemma foldl_append_length [simp]:
  "length (data (foldl frame_append f ds)) = length (data f)"
  by (induction ds arbitrary: f) simp_all

lemma foldl_append_len:
  "len f + length ds \<le> 128 \<Longrightarrow> len (foldl frame_append f ds) = len f + length ds"
  by (induction ds arbitrary: f) simp_all

lemma foldl_append_nth0:
  "len f \<noteq> 0 \<Longrightarrow> len f + length ds \<le> 128 \<Longrightarrow>
   data (foldl frame_append f ds) ! 0 = data f ! 0"
  by (induction ds arbitrary: f) simp_all

lemma foldl_append_bytes:
  "len f + length ds \<le> length (data f) \<Longrightarrow> len f + length ds \<le> 128 \<Longrightarrow>
   frame_bytes (foldl frame_append f ds) = frame_bytes f @ ds"
  by (induction ds arbitrary: f) (simp_all add: frame_bytes_def [of f for f, symmetric] frame_append_bytes)

lemma push_first_status:
  assumes "len (current src) = 0" "running src = 0" "0 < length (data (current src))"
    and "0x80 \<le> (s :: u8)" "s \<le> 0xef"
  shows "midi_reader_push_byte r src (uint s) =
    (MIDIF_NEXT, r, src\<lparr>running := s, current := frame_append (current src) s\<rparr>)"
proof -
  have hi: "s AND 0x80 \<noteq> 0" using assms(4) by (simp add: and_0x80_iff)
  have nz: "s \<noteq> 0" using assms(4) by auto
  from table_status [OF assms(4,5)] hi nz assms show ?thesis
    by (auto simp: midi_reader_push_byte_def Let_def MIDI_FRAME_MAX_def)
qed

lemma push_data_running:
  assumes "running src \<noteq> 0" "(d :: u8) < 0x80" "len (current src) \<noteq> 0"
    and "len (current src) < 128"
    and "0x80 \<le> data (current src) ! 0" "data (current src) ! 0 \<le> 0xef"
  shows "midi_reader_push_byte r src (uint d) =
    (MIDIF_NEXT, r, src\<lparr>current := frame_append (current src) d\<rparr>)"
proof -
  have lo: "d AND 0x80 = 0" using assms(2) by (simp add: and_0x80_iff)
  have hi: "data (current src) ! 0 AND 0x80 \<noteq> 0" using assms(5) by (simp add: and_0x80_iff)
  from table_status [OF assms(5,6)] lo hi assms show ?thesis
    by (auto simp: midi_reader_push_byte_def Let_def MIDI_FRAME_MAX_def)
qed

lemma push_boundary:
  assumes "running src \<noteq> 0" "0x80 \<le> (t :: u8)" "len (current src) \<noteq> 128" "odd (len (current src))"
  shows "midi_reader_push_byte r src (uint t) =
    midi_frame_process r (src\<lparr>push_back := uint t, running := 0\<rparr>)"
proof -
  have hi: "t AND 0x80 \<noteq> 0" using assms(2) by (simp add: and_0x80_iff)
  have "len (current src) \<noteq> 0" using assms(4) by (cases "len (current src)") auto
  moreover have "(int (len (current src)) - 1) mod 2 = 0"
    using assms(4) by presburger
  ultimately show ?thesis
    using hi assms by (simp add: midi_reader_push_byte_def Let_def MIDI_FRAME_MAX_def)
qed

lemma process_plain:
  assumes "len (current src) \<noteq> 0" "\<not> frame_skipped (to_skip r) (current src)"
    and "callback r = None" "channel src \<le> 0" "flags r AND MIDIR_EXPAND = 0"
  shows "midi_frame_process r src =
    (MIDIF_COMPLETE,
     store_step (dump_step (debug_trace (r\<lparr>total := count_read (total r)\<rparr>) (current src) False)
       (current src)) (current src),
     src\<lparr>stats := count_read (stats src)\<rparr>)"
  using assms
  by (simp add: midi_frame_process_def Let_def channel_translation_def expand_step_def
      debug_trace_def)

lemma feed_data:
  assumes "running src \<noteq> 0" "\<forall>d\<in>set ds. d < (0x80 :: u8)" "len (current src) \<noteq> 0"
    and "len (current src) + length ds \<le> 128"
    and "0x80 \<le> data (current src) ! 0" "data (current src) ! 0 \<le> 0xef"
  shows "feed r src (map uint ds) =
    (replicate (length ds) MIDIF_NEXT, r, src\<lparr>current := foldl frame_append (current src) ds\<rparr>)"
  using assms
proof (induction ds arbitrary: src)
  case Nil
  then show ?case by simp
next
  case (Cons d ds)
  let ?src = "src\<lparr>current := frame_append (current src) d\<rparr>"
  have p: "midi_reader_push_byte r src (uint d) = (MIDIF_NEXT, r, ?src)"
    using Cons.prems by (intro push_data_running) auto
  have "feed r ?src (map uint ds) =
    (replicate (length ds) MIDIF_NEXT, r, ?src\<lparr>current := foldl frame_append (current ?src) ds\<rparr>)"
    using Cons.prems by (intro Cons.IH) auto
  with p show ?case by simp
qed

section \<open>The expansion loop\<close>

lemma expand_loop_result:
  assumes "length (data mf) = 128" "len mf + 3 * ((len f + 1 - i) div 2) \<le> 128"
  shows "frame_bytes (expand_loop f i mf) =
           frame_bytes mf @
           concat (map (\<lambda>k. [data f ! 0, data f ! (i + 2 * k), data f ! (i + 2 * k + 1)])
                     [0..<(len f + 1 - i) div 2]) \<and>
         len (expand_loop f i mf) = len mf + 3 * ((len f + 1 - i) div 2)"
  using assms
proof (induction f i mf rule: expand_loop.induct)
  case (1 f i mf)
  show ?case
  proof (cases "i < len f")
    case False
    then have "(len f + 1 - i) div 2 = 0" by simp
    with False show ?thesis by (subst (1 2) expand_loop.simps) simp
  next
    case True
    let ?m1 = "frame_append mf (data f ! 0)"
    let ?m2 = "frame_append ?m1 (data f ! i)"
    let ?m3 = "frame_append ?m2 (data f ! (i + 1))"
    have c: "(len f + 1 - i) div 2 = Suc ((len f + 1 - (i + 2)) div 2)"
      using True by simp
    have l: "len mf + 3 \<le> 128" using "1.prems"(2) c by simp
    have l3: "len ?m3 = len mf + 3" using l by simp
    have b3: "frame_bytes ?m3 = frame_bytes mf @ [data f ! 0, data f ! i, data f ! (i + 1)]"
      using l "1.prems"(1) by (simp add: frame_append_bytes)
    have ih: "frame_bytes (expand_loop f (i + 2) ?m3) =
           frame_bytes ?m3 @
           concat (map (\<lambda>k. [data f ! 0, data f ! (i + 2 + 2 * k), data f ! (i + 2 + 2 * k + 1)])
                     [0..<(len f + 1 - (i + 2)) div 2]) \<and>
         len (expand_loop f (i + 2) ?m3) = len ?m3 + 3 * ((len f + 1 - (i + 2)) div 2)"
      using True "1.prems" c l3 by (intro "1.IH") simp_all
    have u: "expand_loop f i mf = expand_loop f (i + 2) ?m3"
      using True by (subst expand_loop.simps) simp
    show ?thesis
      unfolding u c using ih b3 l3
      by (simp add: map_upt_Suc del: upt_Suc)
  qed
qed

lemma frame_bytes_reset [simp]: "frame_bytes (midi_frame_reset f) = []"
  by (simp add: frame_bytes_def midi_frame_reset_def)

lemma expand_running_pairs:
  assumes "frame_bytes f = s # ds" "0x80 \<le> s" "s \<le> 0xef" "length ds = 2 * N" "1 \<le> N" "N \<le> 42"
    and "length (data f) = 128"
  shows "fst (midi_frame_expand_running f) \<and>
         frame_bytes (snd (midi_frame_expand_running f)) =
           concat (map (\<lambda>k. [s, ds ! (2 * k), ds ! (2 * k + 1)]) [0..<N])"
proof -
  have "length (frame_bytes f) = 2 * N + 1"
    using assms(1,4) by simp
  then have "min (length (data f)) (len f) = 2 * N + 1"
    by (simp add: frame_bytes_def)
  with assms(6,7) have lenf: "len f = 2 * N + 1"
    by (simp add: min_def split: if_splits)
  have "frame_bytes f ! 0 = data f ! 0"
    by (simp add: frame_bytes_def lenf)
  then have d0: "data f ! 0 = s"
    by (simp add: assms(1))
  have dk: "data f ! (Suc j) = ds ! j" if "j < 2 * N" for j
  proof -
    have "frame_bytes f ! Suc j = data f ! Suc j"
      using that by (simp add: frame_bytes_def lenf)
    then show ?thesis by (simp add: assms(1))
  qed
  have pairs: "concat (map (\<lambda>k. [data f ! 0, data f ! (1 + 2 * k), data f ! (1 + 2 * k + 1)]) [0..<N]) =
      concat (map (\<lambda>k. [s, ds ! (2 * k), ds ! (2 * k + 1)]) [0..<N])"
    by (rule arg_cong [where f = concat], rule map_cong) (auto simp: d0 dk)
  show ?thesis
  proof (cases "N = 1")
    case True
    have "frame_bytes f = [s, ds ! 0, ds ! 1]"
      using assms(1,4) True by (cases ds; cases "tl ds") auto
    with True lenf show ?thesis
      by (simp add: midi_frame_expand_running_def)
  next
    case False
    have r: "length (data (midi_frame_reset f)) = 128" "len (midi_frame_reset f) = 0"
      using assms(7) by (simp_all add: midi_frame_reset_def)
    have "frame_bytes (expand_loop f 1 (midi_frame_reset f)) =
           frame_bytes (midi_frame_reset f) @
           concat (map (\<lambda>k. [data f ! 0, data f ! (1 + 2 * k), data f ! (1 + 2 * k + 1)])
                     [0..<(len f + 1 - 1) div 2])"
      using r lenf assms(6) by (intro expand_loop_result [THEN conjunct1]) simp_all
    then have "frame_bytes (expand_loop f 1 (midi_frame_reset f)) =
           concat (map (\<lambda>k. [s, ds ! (2 * k), ds ! (2 * k + 1)]) [0..<N])"
      using pairs lenf by simp
    moreover have "midi_frame_expand_running f = (True, expand_loop f 1 (midi_frame_reset f))"
      using False assms d0 lenf
      by (auto simp: midi_frame_expand_running_def MIDI_FRAME_MAX_def)
    ultimately show ?thesis by simp
  qed
qed

section \<open>Feeding a channel-voice message\<close>

lemma feed_append:
  "feed r src (xs @ ys) =
     (case feed r src xs of
        (o1, r1, s1) \<Rightarrow> (case feed r1 s1 ys of (o2, r2, s2) \<Rightarrow> (o1 @ o2, r2, s2)))"
  by (induction xs arbitrary: r src) (auto split: prod.splits)

lemma feed_channel_voice:
  assumes "0x80 \<le> (s :: u8)" "s \<le> 0xef" "\<forall>d\<in>set ds. d < 0x80" "length ds \<le> 127"
    and "running src = 0" "len (current src) = 0" "length (data (current src)) = 128"
  shows "feed r src (map uint (s # ds)) =
    (replicate (Suc (length ds)) MIDIF_NEXT, r,
     src\<lparr>running := s, current := foldl frame_append (current src) (s # ds)\<rparr>)"
proof -
  let ?src = "src\<lparr>running := s, current := frame_append (current src) s\<rparr>"
  have p: "midi_reader_push_byte r src (uint s) = (MIDIF_NEXT, r, ?src)"
    using assms by (intro push_first_status) auto
  have nz: "s \<noteq> 0" using assms(1) by auto
  have "feed r ?src (map uint ds) =
    (replicate (length ds) MIDIF_NEXT, r, ?src\<lparr>current := foldl frame_append (current ?src) ds\<rparr>)"
    using assms nz by (intro feed_data) auto
  with p show ?thesis by simp
qed

lemma fresh_frame_bytes:
  assumes "len f = 0" "length (data f) = 128" "length bs \<le> 128"
  shows "frame_bytes (foldl frame_append f bs) = bs" "len (foldl frame_append f bs) = length bs"
    "bs \<noteq> [] \<Longrightarrow> data (foldl frame_append f bs) ! 0 = hd bs"
proof -
  show 1: "frame_bytes (foldl frame_append f bs) = bs"
    using assms foldl_append_bytes [of f bs] by (simp add: frame_bytes_def)
  show 2: "len (foldl frame_append f bs) = length bs"
    using assms foldl_append_len [of f bs] by simp
  assume "bs \<noteq> []"
  then have "frame_bytes (foldl frame_append f bs) ! 0 = data (foldl frame_append f bs) ! 0"
    unfolding frame_bytes_def 2 by (cases bs) auto
  with 1 \<open>bs \<noteq> []\<close> show "data (foldl frame_append f bs) ! 0 = hd bs"
    by (cases bs) auto
qed

lemma feed_running_run:
  assumes "0x80 \<le> (s :: u8)" "s \<le> 0xef" "\<forall>d\<in>set ds. d < 0x80" "length ds = 2 * N"
    and "N \<le> 63" "0x80 \<le> (t :: u8)"
    and "running src = 0" "len (current src) = 0" "length (data (current src)) = 128"
    and "channel src \<le> 0"
    and "\<not> skip_entry (to_skip r) s"
    and "callback r = None" "flags r AND MIDIR_EXPAND = 0"
    and "F = foldl frame_append (current src) (s # ds)"
  shows "feed r src (map uint (s # ds @ [t])) =
    (replicate (2 * N + 1) MIDIF_NEXT @ [MIDIF_COMPLETE],
     store_step (dump_step (debug_trace (r\<lparr>total := count_read (total r)\<rparr>) F False) F) F,
     src\<lparr>running := 0, current := F, push_back := uint t, stats := count_read (stats src)\<rparr>)"
proof -
  let ?src = "src\<lparr>running := s, current := F\<rparr>"
  have 1: "feed r src (map uint (s # ds)) = (replicate (Suc (length ds)) MIDIF_NEXT, r, ?src)"
    unfolding assms(14) using assms(1-9) by (intro feed_channel_voice) auto
  have lenF: "len F = 2 * N + 1" and d0: "data F ! 0 = s"
    unfolding assms(14) using assms(4,5,8,9) fresh_frame_bytes [of "current src" "s # ds"]
    by simp_all
  have nz: "s \<noteq> 0" using assms(1) by auto
  have 2: "midi_reader_push_byte r ?src (uint t) =
      midi_frame_process r (?src\<lparr>push_back := uint t, running := 0\<rparr>)"
    using nz assms(5,6) lenF by (intro push_boundary) auto
  have sk: "\<not> frame_skipped (to_skip r) F"
    using assms(11) d0 by (simp add: frame_skipped_def)
  have 3: "midi_frame_process r (?src\<lparr>push_back := uint t, running := 0\<rparr>) =
     (MIDIF_COMPLETE,
      store_step (dump_step (debug_trace (r\<lparr>total := count_read (total r)\<rparr>) F False) F) F,
      (?src\<lparr>push_back := uint t, running := 0\<rparr>)\<lparr>stats := count_read (stats src)\<rparr>)"
    using process_plain [of "?src\<lparr>push_back := uint t, running := 0\<rparr>" r] sk lenF assms(10,12,13)
    by simp
  have "feed r src (map uint (s # ds) @ [uint t]) =
    (replicate (2 * N + 1) MIDIF_NEXT @ [MIDIF_COMPLETE],
     store_step (dump_step (debug_trace (r\<lparr>total := count_read (total r)\<rparr>) F False) F) F,
     src\<lparr>running := 0, current := F, push_back := uint t, stats := count_read (stats src)\<rparr>)"
    unfolding feed_append 1 using 2 3 assms(4) by simp
  then show ?thesis by simp
qed

lemma inject_source_simps [simp]:
  "running inject_source = 0" "len (current inject_source) = 0"
  "length (data (current inject_source)) = 128" "channel inject_source = -1"
  "push_back inject_source = -1"
  by (simp_all add: inject_source_def midi_reader_reset_source_def zero_source_def zero_frame_def
      MIDI_FRAME_MAX_def)

lemma reader0_simps [simp]:
  "to_skip reader0 = None" "callback reader0 = None" "flags reader0 = 0"
  "q_len (frames reader0) = 0" "q_offset (frames reader0) = 0"
  "length (q_frames (frames reader0)) = 1024" "nsources reader0 = 0"
  "length (sources reader0) = 64"
  by (simp_all add: reader0_def midi_reader_init_def MIDI_READER_FRAMES_MAX_def
      MIDI_READER_IN_MAX_def)

text \<open>
  C1, as amended. A fresh source (no running status, empty frame) is fed a channel-voice
  message of the length the table gives for its status byte \<open>s\<close> (0x80 to 0xEF): \<open>s\<close> and then
  data bytes below 0x80. Every byte, the last one too, yields \<open>MIDIF_NEXT\<close>; the reader is
  unchanged (nothing is counted, stored or dumped); the source keeps the bytes as its frame
  in progress and \<open>s\<close> as its running status.
\<close>

theorem channel_voice_feed_in_progress:
  assumes "0x80 \<le> (s :: u8)" "s \<le> 0xef" "\<forall>d\<in>set ds. d < 0x80"
    and "int (Suc (length ds)) = midi_frame_len ! (unat s - 0x80)"
    and "running src = 0" "len (current src) = 0"
    and "length (data (current src)) = MIDI_FRAME_MAX"
  shows "fst (feed r src (map uint (s # ds))) = replicate (Suc (length ds)) MIDIF_NEXT \<and>
         fst (snd (feed r src (map uint (s # ds)))) = r \<and>
         running (snd (snd (feed r src (map uint (s # ds))))) = s \<and>
         frame_bytes (current (snd (snd (feed r src (map uint (s # ds)))))) = s # ds \<and>
         snd (snd (feed r src (map uint (s # ds)))) =
           src\<lparr>running := s,
               current := current (snd (snd (feed r src (map uint (s # ds)))))\<rparr>"
proof -
  have n: "length ds \<le> 127"
    using table_status [OF assms(1,2)] assms(4) by auto
  have f: "feed r src (map uint (s # ds)) =
    (replicate (Suc (length ds)) MIDIF_NEXT, r,
     src\<lparr>running := s, current := foldl frame_append (current src) (s # ds)\<rparr>)"
    using assms n by (intro feed_channel_voice) (auto simp: MIDI_FRAME_MAX_def)
  have "frame_bytes (foldl frame_append (current src) (s # ds)) = s # ds"
    using assms n by (intro fresh_frame_bytes) (auto simp: MIDI_FRAME_MAX_def)
  then show ?thesis unfolding f by simp
qed

theorem channel_voice_feed_in_progress_witness:
  "(0x80 :: u8) \<le> 0x90 \<and> (0x90 :: u8) \<le> 0xef \<and> (0x40 :: u8) < 0x80 \<and> (0x7f :: u8) < 0x80 \<and>
   int (Suc (length [0x40, 0x7f :: u8])) = midi_frame_len ! (unat (0x90 :: u8) - 0x80) \<and>
   running inject_source = 0 \<and> len (current inject_source) = 0 \<and>
   length (data (current inject_source)) = MIDI_FRAME_MAX \<and>
   fst (feed reader0 inject_source (map uint [0x90, 0x40, 0x7f :: u8])) =
     [MIDIF_NEXT, MIDIF_NEXT, MIDIF_NEXT] \<and>
   frame_bytes (current (snd (snd (feed reader0 inject_source
     (map uint [0x90, 0x40, 0x7f :: u8]))))) = [0x90, 0x40, 0x7f]"
  using channel_voice_feed_in_progress [of "0x90" "[0x40, 0x7f]" inject_source reader0]
  by (simp add: midi_frame_len_def MIDI_FRAME_MAX_def)

text \<open>
  C1 as stated fails on the note-on 90 40 7F fed to a fresh source: the outcomes are not
  next, next, complete.
\<close>

theorem note_on_three_bytes_counterexample:
  "fst (feed reader0 inject_source (map uint [0x90, 0x40, 0x7f :: u8])) \<noteq>
     [MIDIF_NEXT, MIDIF_NEXT, MIDIF_COMPLETE]"
  using feed_channel_voice [of "0x90" "[0x40, 0x7f]" inject_source reader0]
  by simp

section \<open>A run under running status\<close>

text \<open>
  C2, as amended. A fresh source without channel remap is fed a channel-voice status \<open>s\<close>,
  then \<open>2 * N\<close> data bytes below 0x80 with \<open>1 \<le> N \<le> 63\<close>, then a byte \<open>t\<close> with its high bit
  set; no entry of the skip list is \<open>s\<close>, there is no callback and the expand flag is clear.
  Every byte before \<open>t\<close> yields \<open>MIDIF_NEXT\<close> and \<open>t\<close> yields \<open>MIDIF_COMPLETE\<close>; the frame \<open>F\<close>, of
  length \<open>1 + 2 * N\<close> and bytes \<open>s\<close> followed by the data, is counted as read once and handed
  once to the dump and store steps; \<open>t\<close> is pushed back and the running status is cleared.
  When \<open>N \<le> 42\<close> the expansion of \<open>F\<close> succeeds and gives the \<open>N\<close> messages
  \<open>s, d(2k-1), d(2k)\<close> in order.
\<close>

theorem running_status_run:
  assumes "0x80 \<le> (s :: u8)" "s \<le> 0xef" "\<forall>d\<in>set ds. d < 0x80" "length ds = 2 * N"
    and "1 \<le> N" "N \<le> 63" "0x80 \<le> (t :: u8)"
    and "running src = 0" "len (current src) = 0"
    and "length (data (current src)) = MIDI_FRAME_MAX"
    and "channel src \<le> 0"
    and "\<not> skip_entry (to_skip r) s"
    and "callback r = None" "flags r AND MIDIR_EXPAND = 0"
    and "F = foldl frame_append (current src) (s # ds)"
  shows "feed r src (map uint (s # ds @ [t])) =
           (replicate (2 * N + 1) MIDIF_NEXT @ [MIDIF_COMPLETE],
            store_step (dump_step (debug_trace (r\<lparr>total := count_read (total r)\<rparr>) F False) F) F,
            src\<lparr>running := 0, current := F, push_back := uint t,
                stats := count_read (stats src)\<rparr>) \<and>
         frame_bytes F = s # ds \<and> len F = 1 + 2 * N \<and>
         (N \<le> 42 \<longrightarrow>
            fst (midi_frame_expand_running F) \<and>
            frame_bytes (snd (midi_frame_expand_running F)) =
              concat (map (\<lambda>k. [s, ds ! (2 * k), ds ! (2 * k + 1)]) [0..<N]))"
proof -
  have 1: "feed r src (map uint (s # ds @ [t])) =
           (replicate (2 * N + 1) MIDIF_NEXT @ [MIDIF_COMPLETE],
            store_step (dump_step (debug_trace (r\<lparr>total := count_read (total r)\<rparr>) F False) F) F,
            src\<lparr>running := 0, current := F, push_back := uint t,
                stats := count_read (stats src)\<rparr>)"
    using assms by (intro feed_running_run) (auto simp: MIDI_FRAME_MAX_def)
  have 2: "frame_bytes F = s # ds" "len F = 1 + 2 * N"
    unfolding assms(15) using assms(4,6,9,10) fresh_frame_bytes [of "current src" "s # ds"]
    by (simp_all add: MIDI_FRAME_MAX_def)
  have 3: "fst (midi_frame_expand_running F) \<and>
            frame_bytes (snd (midi_frame_expand_running F)) =
              concat (map (\<lambda>k. [s, ds ! (2 * k), ds ! (2 * k + 1)]) [0..<N])" if "N \<le> 42"
    using 2(1) assms(1,2,4,5) that
  proof (rule expand_running_pairs)
    show "length (data F) = 128"
      unfolding assms(15) using assms(10) by (simp add: MIDI_FRAME_MAX_def)
  qed
  from 1 2 3 show ?thesis by blast
qed

lemma upt_0_2: "[0..<2] = [0, Suc 0]"
  by (simp add: numeral_2_eq_2)

theorem running_status_run_witness:
  "(0x80 :: u8) \<le> 0x90 \<and> (0x90 :: u8) \<le> 0xef \<and>
   (0x40 :: u8) < 0x80 \<and> (0x7f :: u8) < 0x80 \<and> (0x41 :: u8) < 0x80 \<and> (0x7e :: u8) < 0x80 \<and>
   length [0x40, 0x7f, 0x41, 0x7e :: u8] = 2 * 2 \<and> (1 :: nat) \<le> 2 \<and> (2 :: nat) \<le> 63 \<and>
   (0x80 :: u8) \<le> 0xf8 \<and>
   running inject_source = 0 \<and> len (current inject_source) = 0 \<and>
   length (data (current inject_source)) = MIDI_FRAME_MAX \<and> channel inject_source \<le> 0 \<and>
   \<not> skip_entry (to_skip reader0) 0x90 \<and> callback reader0 = None \<and>
   flags reader0 AND MIDIR_EXPAND = 0 \<and>
   fst (feed reader0 inject_source (map uint [0x90, 0x40, 0x7f, 0x41, 0x7e, 0xf8 :: u8])) =
     replicate 5 MIDIF_NEXT @ [MIDIF_COMPLETE] \<and>
   frame_bytes (current (snd (snd (feed reader0 inject_source
     (map uint [0x90, 0x40, 0x7f, 0x41, 0x7e, 0xf8 :: u8]))))) = [0x90, 0x40, 0x7f, 0x41, 0x7e] \<and>
   push_back (snd (snd (feed reader0 inject_source
     (map uint [0x90, 0x40, 0x7f, 0x41, 0x7e, 0xf8 :: u8])))) = 0xf8 \<and>
   frame_bytes (snd (midi_frame_expand_running (current (snd (snd (feed reader0 inject_source
     (map uint [0x90, 0x40, 0x7f, 0x41, 0x7e, 0xf8 :: u8]))))))) =
     [0x90, 0x40, 0x7f, 0x90, 0x41, 0x7e]"
  using running_status_run [of "0x90" "[0x40, 0x7f, 0x41, 0x7e]" 2 "0xf8" inject_source reader0
      "foldl frame_append (current inject_source) [0x90, 0x40, 0x7f, 0x41, 0x7e]"]
  by (simp add: MIDI_FRAME_MAX_def skip_entry_def upt_0_2 del: feed.simps)

text \<open>
  C2 as stated fails for \<open>N = 43\<close>: the frame of 87 bytes is completed, and its expansion
  (130 bytes) does not fit and returns false.
\<close>

theorem running_status_long_run_counterexample:
  "frame_bytes (current (snd (snd (feed reader0 inject_source
     (map uint (0x90 # replicate 86 0x40 @ [0xf8 :: u8])))))) = 0x90 # replicate 86 0x40 \<and>
   \<not> fst (midi_frame_expand_running (current (snd (snd (feed reader0 inject_source
     (map uint (0x90 # replicate 86 0x40 @ [0xf8 :: u8])))))))"
proof -
  define F where "F = foldl frame_append (current inject_source) (0x90 # replicate 86 (0x40 :: u8))"
  have 1: "feed reader0 inject_source (map uint (0x90 # replicate 86 0x40 @ [0xf8 :: u8])) =
    (replicate (2 * 43 + 1) MIDIF_NEXT @ [MIDIF_COMPLETE],
     store_step (dump_step (debug_trace (reader0\<lparr>total := count_read (total reader0)\<rparr>) F False) F) F,
     inject_source\<lparr>running := 0, current := F, push_back := uint (0xf8 :: u8),
       stats := count_read (stats inject_source)\<rparr>)"
    using F_def by (intro feed_running_run) (simp_all add: skip_entry_def)
  have 2: "frame_bytes F = 0x90 # replicate 86 0x40" "len F = 87" "data F ! 0 = 0x90"
    unfolding F_def
    using fresh_frame_bytes [of "current inject_source" "0x90 # replicate 86 (0x40 :: u8)"]
    by simp_all
  have "\<not> fst (midi_frame_expand_running F)"
    using 2(2,3) by (simp add: midi_frame_expand_running_def MIDI_FRAME_MAX_def)
  with 2(1) show ?thesis unfolding 1 by simp
qed

section \<open>The queue under update\<close>

lemma queue_grows_refl [simp]: "queue_grows q q"
  by (simp add: queue_grows_def)

lemma queue_grows_trans:
  assumes "queue_grows q q'" "queue_grows q' q''"
  shows "queue_grows q q''"
proof -
  have "take (q_len q) (take (q_len q') (q_frames q'')) = take (q_len q) (take (q_len q') (q_frames q'))"
    using assms by (simp add: queue_grows_def)
  then have "take (q_len q) (q_frames q'') = take (q_len q) (q_frames q')"
    using assms by (simp add: queue_grows_def min_def)
  with assms show ?thesis by (auto simp: queue_grows_def)
qed

lemma frames_dump_step [simp]: "frames (dump_step r mf) = frames r"
  by (simp add: dump_step_def)

lemma frames_debug_trace [simp]: "frames (debug_trace r mf b) = frames r"
  by (simp add: debug_trace_def)

lemma store_step_grows:
  "q_offset (frames r) < q_len (frames r) \<Longrightarrow> queue_grows (frames r) (frames (store_step r mf))"
  by (auto simp: store_step_def Let_def queue_grows_def)

lemma process_grows:
  assumes "q_offset (frames r) < q_len (frames r)"
  shows "queue_grows (frames r) (frames (fst (snd (midi_frame_process r src))))"
proof -
  have "queue_grows (frames r) (frames (store_step (dump_step r' mf) mf))"
    if "frames r' = frames r" for r' mf
    using store_step_grows [of "dump_step r' mf" mf] assms that by simp
  then show ?thesis
    by (simp add: midi_frame_process_def Let_def split: option.split prod.split)
qed

lemma push_byte_grows:
  assumes "q_offset (frames r) < q_len (frames r)"
  shows "queue_grows (frames r) (frames (fst (snd (midi_reader_push_byte r src d))))"
  using process_grows [OF assms]
  by (simp add: midi_reader_push_byte_def Let_def)

lemma update_source_grows:
  assumes "q_offset (frames r) < q_len (frames r)"
  shows "queue_grows (frames r) (frames (update_source r i))"
proof -
  obtain b s where g: "midi_reader_get_byte (sources r ! i) = (b, s)"
    by (cases "midi_reader_get_byte (sources r ! i)")
  obtain st r' s' where p: "midi_reader_push_byte r s b = (st, r', s')"
    by (cases "midi_reader_push_byte r s b")
  have "queue_grows (frames r) (frames r')"
    using push_byte_grows [OF assms, of s b] p by simp
  then show ?thesis
    by (simp add: update_source_def g p)
qed

lemma queue_grows_nonempty:
  "queue_grows q q' \<Longrightarrow> q_offset q < q_len q \<Longrightarrow> q_offset q' < q_len q'"
  by (simp add: queue_grows_def)

lemma update_loop_grows:
  "q_offset (frames r) < q_len (frames r) \<Longrightarrow>
   queue_grows (frames r) (frames (update_loop r src i))"
proof (induction r src i rule: update_loop.induct)
  case (1 reader src i)
  show ?case
  proof (cases "i < nsources reader")
    case False
    then show ?thesis by (subst update_loop.simps) simp
  next
    case True
    let ?src = "if src \<ge> nsources reader then 0 else src"
    have g: "queue_grows (frames reader) (frames (update_source reader ?src))"
      using "1.prems" by (rule update_source_grows)
    then have "q_offset (frames (update_source reader ?src)) < q_len (frames (update_source reader ?src))"
      using "1.prems" by (rule queue_grows_nonempty)
    then have "queue_grows (frames (update_source reader ?src))
        (frames (update_loop (update_source reader ?src) (?src + 1) (i + 1)))"
      using True by (intro "1.IH") auto
    with g have "queue_grows (frames reader)
        (frames (update_loop (update_source reader ?src) (?src + 1) (i + 1)))"
      by (rule queue_grows_trans)
    then show ?thesis
      using True by (subst update_loop.simps) (simp add: Let_def)
  qed
qed

lemma frames_read [simp]: "frames (midi_reader_read r inps) = frames r"
proof -
  have "frames (foldl (\<lambda>r i. r\<lparr>sources := (sources r)[i := read_source (sources r ! i) (inps i)]\<rparr>) r xs) = frames r" for xs
    by (induction xs arbitrary: r) simp_all
  then show ?thesis by (simp add: midi_reader_read_def)
qed

lemma update_grows:
  assumes "q_offset (frames r) < q_len (frames r)"
  shows "queue_grows (frames r) (frames (snd (midi_reader_update r inps)))"
    and "fst (midi_reader_update r inps)"
proof -
  let ?r1 = "(midi_reader_read r inps)\<lparr>start := (if start (midi_reader_read r inps) + 1 \<ge> int (nsources (midi_reader_read r inps)) then 0
                                     else start (midi_reader_read r inps) + 1)\<rparr>"
  have f: "frames ?r1 = frames r" by simp
  have "queue_grows (frames ?r1) (frames (update_loop ?r1 (nat (start ?r1)) 0))"
    using assms f by (intro update_loop_grows) simp
  then have g: "queue_grows (frames r) (frames (update_loop ?r1 (nat (start ?r1)) 0))"
    by (simp only: f)
  then show "queue_grows (frames r) (frames (snd (midi_reader_update r inps)))"
    by (simp add: midi_reader_update_def Let_def)
  from g assms have "q_offset (frames (update_loop ?r1 (nat (start ?r1)) 0)) < q_len (frames (update_loop ?r1 (nat (start ?r1)) 0))"
    by (rule queue_grows_nonempty)
  then show "fst (midi_reader_update r inps)"
    by (simp add: midi_reader_update_def Let_def)
qed

lemma get_next_nonempty:
  assumes "q_offset (frames r) < q_len (frames r)" "q_len (frames r) \<le> MIDI_READER_FRAMES_MAX"
    and "length (q_frames (frames r)) = MIDI_READER_FRAMES_MAX"
  shows "fst (midi_reader_get_next r inps) = Some (q_frames (frames r) ! q_offset (frames r))"
    and "q_offset (frames (snd (midi_reader_get_next r inps))) = q_offset (frames r) + 1"
    and "q_len (frames r) \<le> q_len (frames (snd (midi_reader_get_next r inps)))"
    and "q_len (frames (snd (midi_reader_get_next r inps))) \<le> MIDI_READER_FRAMES_MAX"
    and "length (q_frames (frames (snd (midi_reader_get_next r inps)))) = length (q_frames (frames r))"
    and "take (q_len (frames r)) (q_frames (frames (snd (midi_reader_get_next r inps)))) =
         take (q_len (frames r)) (q_frames (frames r))"
proof -
  obtain a r' where u: "midi_reader_update r inps = (a, r')"
    by (cases "midi_reader_update r inps")
  have g: "queue_grows (frames r) (frames r')" and a: a
    using update_grows [OF assms(1), of inps] u by simp_all
  have "take (q_len (frames r)) (q_frames (frames r')) ! q_offset (frames r) =
        take (q_len (frames r)) (q_frames (frames r)) ! q_offset (frames r)"
    using g by (simp add: queue_grows_def)
  then have n: "q_frames (frames r') ! q_offset (frames r) = q_frames (frames r) ! q_offset (frames r)"
    using assms by simp
  show "fst (midi_reader_get_next r inps) = Some (q_frames (frames r) ! q_offset (frames r))"
    using g a n by (simp add: midi_reader_get_next_def u queue_grows_def)
  show "q_offset (frames (snd (midi_reader_get_next r inps))) = q_offset (frames r) + 1"
    using g a by (simp add: midi_reader_get_next_def u queue_grows_def)
  show "q_len (frames r) \<le> q_len (frames (snd (midi_reader_get_next r inps)))"
    using g a by (simp add: midi_reader_get_next_def u queue_grows_def)
  show "q_len (frames (snd (midi_reader_get_next r inps))) \<le> MIDI_READER_FRAMES_MAX"
    using g a assms(2) by (simp add: midi_reader_get_next_def u queue_grows_def)
  show "length (q_frames (frames (snd (midi_reader_get_next r inps)))) = length (q_frames (frames r))"
    using g a by (simp add: midi_reader_get_next_def u queue_grows_def)
  show "take (q_len (frames r)) (q_frames (frames (snd (midi_reader_get_next r inps)))) =
         take (q_len (frames r)) (q_frames (frames r))"
    using g a by (simp add: midi_reader_get_next_def u queue_grows_def)
qed

lemma get_next_n_in_order:
  assumes "q_offset (frames r) + length inps \<le> q_len (frames r)"
    and "q_len (frames r) \<le> MIDI_READER_FRAMES_MAX"
    and "length (q_frames (frames r)) = MIDI_READER_FRAMES_MAX"
  shows "fst (get_next_n r inps) =
    map (\<lambda>i. Some (q_frames (frames r) ! i)) [q_offset (frames r)..<q_offset (frames r) + length inps]"
  using assms
proof (induction inps arbitrary: r)
  case Nil
  then show ?case by simp
next
  case (Cons inp inps)
  let ?r = "snd (midi_reader_get_next r inp)"
  have ne: "q_offset (frames r) < q_len (frames r)" using Cons.prems by simp
  note gn = get_next_nonempty [OF ne Cons.prems(2,3), of inp]
  have "fst (get_next_n ?r inps) =
    map (\<lambda>i. Some (q_frames (frames ?r) ! i)) [q_offset (frames ?r)..<q_offset (frames ?r) + length inps]"
    using Cons.prems gn(2,3,4,5) by (intro Cons.IH) simp_all
  also have "\<dots> = map (\<lambda>i. Some (q_frames (frames r) ! i)) [Suc (q_offset (frames r))..<Suc (q_offset (frames r)) + length inps]"
  proof (rule map_cong)
    show "[q_offset (frames ?r)..<q_offset (frames ?r) + length inps] =
      [Suc (q_offset (frames r))..<Suc (q_offset (frames r)) + length inps]"
      using gn(2) by simp
  next
    fix i assume "i \<in> set [Suc (q_offset (frames r))..<Suc (q_offset (frames r)) + length inps]"
    then have i: "i < q_len (frames r)" using Cons.prems by (simp del: upt_Suc)
    have "take (q_len (frames r)) (q_frames (frames ?r)) ! i = take (q_len (frames r)) (q_frames (frames r)) ! i"
      using gn(6) by simp
    with i show "Some (q_frames (frames ?r) ! i) = Some (q_frames (frames r) ! i)"
      by simp
  qed
  finally have rest: "fst (get_next_n ?r inps) =
    map (\<lambda>i. Some (q_frames (frames r) ! i)) [Suc (q_offset (frames r))..<Suc (q_offset (frames r)) + length inps]" .
  have "fst (get_next_n r (inp # inps)) = fst (midi_reader_get_next r inp) # fst (get_next_n ?r inps)"
    by (simp split: prod.split)
  with rest gn(1) show ?case
    by (simp add: upt_conv_Cons del: upt_Suc)
qed

section \<open>Injection of a note-on\<close>

lemma expand_step_len3: "len mf = 3 \<Longrightarrow> expand_step r mf = mf"
  by (simp add: expand_step_def midi_frame_expand_running_def)

lemma process_plain3:
  assumes "len (current src) = 3" "\<not> frame_skipped (to_skip r) (current src)"
    and "callback r = None" "channel src \<le> 0"
  shows "midi_frame_process r src =
    (MIDIF_COMPLETE,
     store_step (dump_step (debug_trace (r\<lparr>total := count_read (total r)\<rparr>) (current src) False)
       (current src)) (current src),
     src\<lparr>stats := count_read (stats src)\<rparr>)"
  using assms
  by (simp add: midi_frame_process_def Let_def channel_translation_def expand_step_len3
      debug_trace_def)

lemma inject_loop_note_on:
  assumes "0x80 \<le> (s :: u8)" "s \<le> 0xef" "d1 < 0x80" "d2 < 0x80"
    and "len mf = 3" "data mf ! 0 = s" "data mf ! 1 = d1" "data mf ! 2 = d2"
  shows "inject_loop mf 0 r inject_source =
    (False, 3, r, inject_source\<lparr>running := s,
        current := foldl frame_append (current inject_source) [s, d1, d2]\<rparr>)"
proof -
  let ?s1 = "inject_source\<lparr>running := s, current := frame_append (current inject_source) s\<rparr>"
  let ?s2 = "?s1\<lparr>current := frame_append (current ?s1) d1\<rparr>"
  let ?s3 = "?s2\<lparr>current := frame_append (current ?s2) d2\<rparr>"
  have nz: "s \<noteq> 0" using assms(1) by auto
  have p1: "midi_reader_push_byte r inject_source (uint s) = (MIDIF_NEXT, r, ?s1)"
    using assms(1,2) by (intro push_first_status) simp_all
  have p2: "midi_reader_push_byte r ?s1 (uint d1) = (MIDIF_NEXT, r, ?s2)"
    using assms(1,2,3) nz by (intro push_data_running) simp_all
  have p3: "midi_reader_push_byte r ?s2 (uint d2) = (MIDIF_NEXT, r, ?s3)"
    using assms(1,2,4) nz by (intro push_data_running) simp_all
  have l3: "inject_loop mf 3 r ?s3 = (False, 3, r, ?s3)"
    using assms(5) by (subst inject_loop.simps) simp
  have l2: "inject_loop mf 2 r ?s2 = (False, 3, r, ?s3)"
    using assms(5,8) p3 l3 by (subst inject_loop.simps) simp
  have l1: "inject_loop mf 1 r ?s1 = (False, 3, r, ?s3)"
    using assms(5,7) p2 l2 by (subst inject_loop.simps) (simp add: numeral_2_eq_2)
  have l0: "inject_loop mf 0 r inject_source = (False, 3, r, ?s3)"
    using assms(5,6) p1 l1 by (subst inject_loop.simps) simp
  then show ?thesis by simp
qed

lemma note_on_injected:
  assumes "0x80 \<le> (s :: u8)" "s \<le> 0xef" "d1 < 0x80" "d2 < 0x80"
    and "len mf = 3" "data mf ! 0 = s" "data mf ! 1 = d1" "data mf ! 2 = d2"
    and "\<not> skip_entry (to_skip r) s" "callback r = None"
    and "F = foldl frame_append (current inject_source) [s, d1, d2]"
  shows "midi_reader_inject r mf =
    (3, store_step (dump_step (debug_trace (r\<lparr>total := count_read (total r)\<rparr>) F False) F) F)"
    and "midi_reader_push_byte r (inject_source\<lparr>running := s, current := F\<rparr>) 0xfe =
    (MIDIF_COMPLETE,
     store_step (dump_step (debug_trace (r\<lparr>total := count_read (total r)\<rparr>) F False) F) F,
     inject_source\<lparr>running := 0, current := F, push_back := 0xfe,
       stats := count_read (stats inject_source)\<rparr>)"
proof -
  let ?s3 = "inject_source\<lparr>running := s, current := F\<rparr>"
  have nz: "s \<noteq> 0" using assms(1) by auto
  have F: "len F = 3" "data F ! 0 = s" "frame_bytes F = [s, d1, d2]"
    unfolding assms(11) using fresh_frame_bytes [of "current inject_source" "[s, d1, d2]"]
    by simp_all
  have b: "midi_reader_push_byte r ?s3 (uint (0xfe :: u8)) =
      midi_frame_process r (?s3\<lparr>push_back := uint (0xfe :: u8), running := 0\<rparr>)"
    using nz F(1) by (intro push_boundary) simp_all
  have sk: "\<not> frame_skipped (to_skip r) F"
    using assms(9) F(2) by (simp add: frame_skipped_def)
  have p: "midi_frame_process r (?s3\<lparr>push_back := uint (0xfe :: u8), running := 0\<rparr>) =
    (MIDIF_COMPLETE,
     store_step (dump_step (debug_trace (r\<lparr>total := count_read (total r)\<rparr>) F False) F) F,
     (?s3\<lparr>push_back := uint (0xfe :: u8), running := 0\<rparr>)\<lparr>stats := count_read (stats inject_source)\<rparr>)"
    using process_plain3 [of "?s3\<lparr>push_back := uint (0xfe :: u8), running := 0\<rparr>" r]
      sk F(1) assms(10) by simp
  show 2: "midi_reader_push_byte r (inject_source\<lparr>running := s, current := F\<rparr>) 0xfe =
    (MIDIF_COMPLETE,
     store_step (dump_step (debug_trace (r\<lparr>total := count_read (total r)\<rparr>) F False) F) F,
     inject_source\<lparr>running := 0, current := F, push_back := 0xfe,
       stats := count_read (stats inject_source)\<rparr>)"
    using b p by simp
  have "inject_loop mf 0 r inject_source = (False, 3, r, ?s3)"
    unfolding assms(11) using assms(1-8) by (rule inject_loop_note_on)
  then show "midi_reader_inject r mf =
    (3, store_step (dump_step (debug_trace (r\<lparr>total := count_read (total r)\<rparr>) F False) F) F)"
    using assms(5) nz 2 by (simp add: midi_reader_inject_def)
qed

lemma store_step_frames_cong:
  "frames x = frames y \<Longrightarrow> frames (store_step x mf) = frames (store_step y mf)"
  by (simp add: store_step_def Let_def)

lemma store_step_room:
  assumes "q_len (frames r) < MIDI_READER_FRAMES_MAX"
    and "p = (if q_len (frames r) = q_offset (frames r) then 0 else q_len (frames r))"
  shows "frames (store_step r mf) =
    \<lparr>q_len = p + 1,
     q_offset = (if q_len (frames r) = q_offset (frames r) then 0 else q_offset (frames r)),
     q_frames = (q_frames (frames r))[p := mf]\<rparr>"
  using assms by (simp add: store_step_def Let_def)

lemma total_store_step_read [simp]: "read (total (store_step r mf)) = read (total r)"
  by (simp add: store_step_def Let_def)

lemma total_dump_step [simp]: "total (dump_step r mf) = total r"
  by (simp add: dump_step_def)

lemma total_debug_trace [simp]: "total (debug_trace r mf b) = total r"
  by (simp add: debug_trace_def)

text \<open>
  C6. A frame of length 3 is injected: a note-on status \<open>s\<close> (0x90 to 0x9F) and two data
  bytes below 0x80; no entry of the skip list is \<open>s\<close>, no callback is set and the queue has
  fewer than 1024 frames. \<^verbatim>\<open>midi_reader_inject\<close> returns 3. The frame, with exactly these
  three bytes, is stored at the end of the queue (position \<open>p\<close>), after the frames that
  were waiting; so the call of \<^verbatim>\<open>midi_reader_get_next\<close> that comes after those waiting
  frames have been taken returns it, whatever the sources deliver meanwhile. The loop of
  the injection leaves the run pending; the reader returned is the one after the push of
  0xFE, whose outcome is \<open>MIDIF_COMPLETE\<close>, and 0xFE is not in the stored frame.
\<close>

theorem inject_note_on:
  assumes "0x90 \<le> (s :: u8)" "s \<le> 0x9f" "d1 < 0x80" "d2 < 0x80"
    and "len mf = 3" "data mf ! 0 = s" "data mf ! 1 = d1" "data mf ! 2 = d2"
    and "\<not> skip_entry (to_skip r) s" "callback r = None"
    and "q_len (frames r) < MIDI_READER_FRAMES_MAX" "q_offset (frames r) \<le> q_len (frames r)"
    and "length (q_frames (frames r)) = MIDI_READER_FRAMES_MAX"
    and "p = (if q_len (frames r) = q_offset (frames r) then 0 else q_len (frames r))"
    and "length inps =
           Suc (p - (if q_len (frames r) = q_offset (frames r) then 0 else q_offset (frames r)))"
    and "r' = snd (midi_reader_inject r mf)"
  shows "fst (midi_reader_inject r mf) = 3 \<and>
         q_len (frames r') = p + 1 \<and>
         len (q_frames (frames r') ! p) = 3 \<and>
         frame_bytes (q_frames (frames r') ! p) = [s, d1, d2] \<and>
         take p (q_frames (frames r')) = take p (q_frames (frames r)) \<and>
         (\<exists>f. last (fst (get_next_n r' inps)) = Some f \<and> frame_bytes f = [s, d1, d2]) \<and>
         read (total r') = read (total r) + 1 \<and>
         fst (midi_reader_push_byte r (snd (snd (snd (inject_loop mf 0 r inject_source)))) 0xfe) =
           MIDIF_COMPLETE \<and>
         fst (snd (midi_reader_push_byte r
           (snd (snd (snd (inject_loop mf 0 r inject_source)))) 0xfe)) = r'"
proof -
  define F where "F = foldl frame_append (current inject_source) [s, d1, d2]"
  define R where "R = dump_step (debug_trace (r\<lparr>total := count_read (total r)\<rparr>) F False) F"
  have "(0x80 :: u8) \<le> 0x90" "(0x9f :: u8) \<le> 0xef"
    by simp_all
  with assms(1,2) have s: "0x80 \<le> s" "s \<le> 0xef"
    by (blast intro: order_trans)+
  note inj = note_on_injected [OF s assms(3-10) F_def, folded R_def]
  have lp: "inject_loop mf 0 r inject_source =
      (False, 3, r, inject_source\<lparr>running := s, current := F\<rparr>)"
    unfolding F_def using s assms(3-8) by (rule inject_loop_note_on)
  have r': "r' = store_step R F"
    using inj(1) assms(16) by simp
  have F: "len F = 3" "frame_bytes F = [s, d1, d2]"
    unfolding F_def using fresh_frame_bytes [of "current inject_source" "[s, d1, d2]"]
    by simp_all
  have fR: "frames R = frames r" by (simp add: R_def)
  let ?o = "if q_len (frames r) = q_offset (frames r) then 0 else q_offset (frames r)"
  have fr: "frames r' = \<lparr>q_len = p + 1, q_offset = ?o, q_frames = (q_frames (frames r))[p := F]\<rparr>"
    unfolding r' using store_step_room [of R p F] assms(11,14) fR by simp
  have p: "p < MIDI_READER_FRAMES_MAX" "?o \<le> p"
    using assms(11,12,14) by auto
  have "fst (get_next_n r' inps) =
    map (\<lambda>i. Some (q_frames (frames r') ! i)) [q_offset (frames r')..<q_offset (frames r') + length inps]"
    using p assms(13,15) by (intro get_next_n_in_order) (simp_all add: fr)
  also have "\<dots> = map (\<lambda>i. Some (q_frames (frames r') ! i)) [?o..<Suc p]"
    using p assms(15) by (simp add: fr del: upt_Suc)
  finally have "last (fst (get_next_n r' inps)) = Some (q_frames (frames r') ! p)"
    using p by (simp add: last_map)
  moreover have "q_frames (frames r') ! p = F"
    using p assms(13) by (simp add: fr)
  ultimately have g: "\<exists>f. last (fst (get_next_n r' inps)) = Some f \<and> frame_bytes f = [s, d1, d2]"
    using F by simp
  have rd: "read (total r') = read (total r) + 1"
    by (simp add: r' R_def count_read_def)
  show ?thesis
    using inj g rd F p assms(13) by (simp add: lp fr r' [symmetric])
qed

theorem inject_note_on_witness:
  "(0x90 :: u8) \<le> 0x90 \<and> (0x90 :: u8) \<le> 0x9f \<and> (0x40 :: u8) < 0x80 \<and> (0x7f :: u8) < 0x80 \<and>
   len (mk_frame [0x90, 0x40, 0x7f]) = 3 \<and> data (mk_frame [0x90, 0x40, 0x7f]) ! 0 = 0x90 \<and>
   data (mk_frame [0x90, 0x40, 0x7f]) ! 1 = 0x40 \<and> data (mk_frame [0x90, 0x40, 0x7f]) ! 2 = 0x7f \<and>
   \<not> skip_entry (to_skip reader0) 0x90 \<and> callback reader0 = None \<and>
   q_len (frames reader0) < MIDI_READER_FRAMES_MAX \<and>
   q_offset (frames reader0) \<le> q_len (frames reader0) \<and>
   length (q_frames (frames reader0)) = MIDI_READER_FRAMES_MAX \<and>
   fst (midi_reader_inject reader0 (mk_frame [0x90, 0x40, 0x7f])) = 3 \<and>
   q_len (frames (snd (midi_reader_inject reader0 (mk_frame [0x90, 0x40, 0x7f])))) = 1 \<and>
   frame_bytes (q_frames (frames (snd (midi_reader_inject reader0
     (mk_frame [0x90, 0x40, 0x7f])))) ! 0) = [0x90, 0x40, 0x7f] \<and>
   (\<exists>f. last (fst (get_next_n (snd (midi_reader_inject reader0 (mk_frame [0x90, 0x40, 0x7f])))
          [\<lambda>i. []])) = Some f \<and> frame_bytes f = [0x90, 0x40, 0x7f])"
  using inject_note_on [of "0x90" "0x40" "0x7f" "mk_frame [0x90, 0x40, 0x7f]" reader0 0
      "[\<lambda>i. []]" "snd (midi_reader_inject reader0 (mk_frame [0x90, 0x40, 0x7f]))"]
  by (simp add: mk_frame_def skip_entry_def MIDI_READER_FRAMES_MAX_def del: get_next_n.simps)

section \<open>Shedding frames when the queue is full\<close>

lemma store_step_fields [simp]:
  "to_skip (store_step r mf) = to_skip r" "callback (store_step r mf) = callback r"
  "flags (store_step r mf) = flags r" "errors (total (store_step r mf)) = errors (total r)"
  by (simp_all add: store_step_def Let_def)

lemma dump_step_fields [simp]:
  "to_skip (dump_step r mf) = to_skip r" "callback (dump_step r mf) = callback r"
  "flags (dump_step r mf) = flags r"
  by (simp_all add: dump_step_def)

lemma debug_trace_fields [simp]:
  "to_skip (debug_trace r mf b) = to_skip r" "callback (debug_trace r mf b) = callback r"
  "flags (debug_trace r mf b) = flags r"
  by (simp_all add: debug_trace_def)

lemma expand_step_simps [simp]:
  "expand_step (debug_trace r a b) mf = expand_step r mf"
  "expand_step (r\<lparr>total := t\<rparr>) mf = expand_step r mf"
  by (simp_all add: expand_step_def)

lemma channel_translation_stats [simp]:
  "channel_translation (s\<lparr>stats := x\<rparr>) mf = channel_translation s mf"
  by (simp add: channel_translation_def)

lemma store_step_missed_cong:
  "frames x = frames y \<Longrightarrow>
   missed (total (store_step x mf)) - missed (total x) =
   missed (total (store_step y mf)) - missed (total y)"
  by (simp add: store_step_def Let_def)

lemma process_acceptable:
  assumes "acceptable r s"
  shows "\<exists>R. midi_frame_process r s =
           (MIDIF_COMPLETE, store_step R (stored_frame r s),
            s\<lparr>stats := count_read (stats s), current := stored_frame r s\<rparr>) \<and>
         frames R = frames r \<and> missed (total R) = missed (total r) \<and>
         errors (total R) = errors (total r) \<and>
         to_skip R = to_skip r \<and> callback R = callback r \<and> flags R = flags r"
proof (cases "callback r")
  case None
  let ?R = "dump_step (debug_trace (r\<lparr>total := count_read (total r)\<rparr>) (current s) False)
              (stored_frame r s)"
  have "midi_frame_process r s =
           (MIDIF_COMPLETE, store_step ?R (stored_frame r s),
            s\<lparr>stats := count_read (stats s), current := stored_frame r s\<rparr>)"
    using assms None
    by (simp add: midi_frame_process_def acceptable_def stored_frame_def Let_def)
  then show ?thesis
    by (intro exI [of _ ?R]) (simp add: count_read_def)
next
  case (Some cb)
  let ?pre = "expand_step r (channel_translation s (current s))"
  let ?R = "dump_step ((debug_trace (r\<lparr>total := count_read (total r)\<rparr>) (current s) False)
              \<lparr>cb_log := cb_log (debug_trace (r\<lparr>total := count_read (total r)\<rparr>) (current s) False)
                   @ [?pre]\<rparr>) (stored_frame r s)"
  have "midi_frame_process r s =
           (MIDIF_COMPLETE, store_step ?R (stored_frame r s),
            s\<lparr>stats := count_read (stats s), current := stored_frame r s\<rparr>)"
    using assms Some
    by (auto simp: midi_frame_process_def acceptable_def stored_frame_def Let_def
        split: prod.split)
  then show ?thesis
    by (intro exI [of _ ?R]) (simp add: count_read_def)
qed

lemma acceptable_cong:
  assumes "to_skip r' = to_skip r" "callback r' = callback r" "flags r' = flags r"
  shows "acceptable r' s = acceptable r s" "stored_frame r' s = stored_frame r s"
  using assms
  by (simp_all add: acceptable_def stored_frame_def expand_step_def cong: option.case_cong)

lemma store_step_at:
  assumes "p = (if q_len (frames r) = q_offset (frames r) then 0 else q_len (frames r))"
    and "p < MIDI_READER_FRAMES_MAX"
  shows "frames (store_step r mf) =
    \<lparr>q_len = p + 1,
     q_offset = (if q_len (frames r) = q_offset (frames r) then 0 else q_offset (frames r)),
     q_frames = (q_frames (frames r))[p := mf]\<rparr>"
    and "missed (total (store_step r mf)) = missed (total r)"
  using assms
  by (auto simp: store_step_def Let_def MIDI_READER_FRAMES_MAX_def split: if_splits)

lemma store_step_full:
  assumes "q_len (frames r) = MIDI_READER_FRAMES_MAX" "q_offset (frames r) \<noteq> q_len (frames r)"
  shows "frames (store_step r mf) = frames r"
    and "missed (total (store_step r mf)) = missed (total r) + 1"
  using assms by (simp_all add: store_step_def Let_def)

lemma process_all_append:
  "process_all r (xs @ ys) =
     (case process_all r xs of
        (o1, r1) \<Rightarrow> (case process_all r1 ys of (o2, r2) \<Rightarrow> (o1 @ o2, r2)))"
  by (induction xs arbitrary: r) (auto split: prod.splits)

lemma process_all_fill:
  assumes "\<forall>s\<in>set ss. acceptable r s"
    and "q_len (frames r) = q_offset (frames r) \<or> q_offset (frames r) = 0"
    and "n = (if q_len (frames r) = q_offset (frames r) then 0 else q_len (frames r))"
    and "n + length ss \<le> MIDI_READER_FRAMES_MAX"
    and "length (q_frames (frames r)) = MIDI_READER_FRAMES_MAX"
  shows "map fst (fst (process_all r ss)) = replicate (length ss) MIDIF_COMPLETE \<and>
         map snd (fst (process_all r ss)) =
           map (\<lambda>s. s\<lparr>stats := count_read (stats s), current := stored_frame r s\<rparr>) ss \<and>
         (ss \<noteq> [] \<longrightarrow> q_offset (frames (snd (process_all r ss))) = 0 \<and>
                      q_len (frames (snd (process_all r ss))) = n + length ss) \<and>
         length (q_frames (frames (snd (process_all r ss)))) = MIDI_READER_FRAMES_MAX \<and>
         take (n + length ss) (q_frames (frames (snd (process_all r ss)))) =
           take n (q_frames (frames r)) @ map (stored_frame r) ss \<and>
         missed (total (snd (process_all r ss))) = missed (total r) \<and>
         errors (total (snd (process_all r ss))) = errors (total r) \<and>
         to_skip (snd (process_all r ss)) = to_skip r \<and>
         callback (snd (process_all r ss)) = callback r \<and>
         flags (snd (process_all r ss)) = flags r"
  using assms
proof (induction ss arbitrary: r n)
  case Nil
  then show ?case by simp
next
  case (Cons s ss)
  let ?F = "stored_frame r s"
  from Cons.prems(1) have "acceptable r s" by simp
  from process_acceptable [OF this] obtain R where
    p: "midi_frame_process r s =
          (MIDIF_COMPLETE, store_step R ?F, s\<lparr>stats := count_read (stats s), current := ?F\<rparr>)"
    and R: "frames R = frames r" "missed (total R) = missed (total r)"
      "errors (total R) = errors (total r)" "to_skip R = to_skip r" "callback R = callback r"
      "flags R = flags r"
    by blast
  let ?r1 = "store_step R ?F"
  have n: "n < MIDI_READER_FRAMES_MAX" using Cons.prems(4) by simp
  have f1: "frames ?r1 = \<lparr>q_len = n + 1, q_offset = 0, q_frames = (q_frames (frames r))[n := ?F]\<rparr>"
    using store_step_at(1) [of n R ?F] Cons.prems(2,3) n R(1) by auto
  have m1: "missed (total ?r1) = missed (total r)"
    using store_step_at(2) [of n R ?F] Cons.prems(3) n R(1,2) by simp
  have c1: "to_skip ?r1 = to_skip r" "callback ?r1 = callback r" "flags ?r1 = flags r"
    "errors (total ?r1) = errors (total r)"
    using R by simp_all
  have acc: "\<forall>t\<in>set ss. acceptable ?r1 t"
    using Cons.prems(1) acceptable_cong(1) [OF c1(1-3)] by simp
  have st: "stored_frame ?r1 t = stored_frame r t" for t
    using acceptable_cong(2) [OF c1(1-3)] by simp
  have ih: "map fst (fst (process_all ?r1 ss)) = replicate (length ss) MIDIF_COMPLETE \<and>
         map snd (fst (process_all ?r1 ss)) =
           map (\<lambda>s. s\<lparr>stats := count_read (stats s), current := stored_frame ?r1 s\<rparr>) ss \<and>
         (ss \<noteq> [] \<longrightarrow> q_offset (frames (snd (process_all ?r1 ss))) = 0 \<and>
                      q_len (frames (snd (process_all ?r1 ss))) = (n + 1) + length ss) \<and>
         length (q_frames (frames (snd (process_all ?r1 ss)))) = MIDI_READER_FRAMES_MAX \<and>
         take ((n + 1) + length ss) (q_frames (frames (snd (process_all ?r1 ss)))) =
           take (n + 1) (q_frames (frames ?r1)) @ map (stored_frame ?r1) ss \<and>
         missed (total (snd (process_all ?r1 ss))) = missed (total ?r1) \<and>
         errors (total (snd (process_all ?r1 ss))) = errors (total ?r1) \<and>
         to_skip (snd (process_all ?r1 ss)) = to_skip ?r1 \<and>
         callback (snd (process_all ?r1 ss)) = callback ?r1 \<and>
         flags (snd (process_all ?r1 ss)) = flags ?r1"
    using acc Cons.prems(4,5) by (intro Cons.IH) (simp_all add: f1)
  have tk: "take (n + 1) (q_frames (frames ?r1)) = take n (q_frames (frames r)) @ [?F]"
    using n Cons.prems(5) by (simp add: f1 take_Suc_conv_app_nth)
  have pa: "process_all r (s # ss) =
      ((MIDIF_COMPLETE, s\<lparr>stats := count_read (stats s), current := ?F\<rparr>) # fst (process_all ?r1 ss),
       snd (process_all ?r1 ss))"
    by (simp add: p split: prod.split)
  show ?case
    unfolding pa using ih tk m1 c1 f1 by (cases "ss = []") (simp_all add: st)
qed

lemma process_all_overflow:
  assumes "\<forall>s\<in>set ss. acceptable r s"
    and "q_len (frames r) = MIDI_READER_FRAMES_MAX" "q_offset (frames r) \<noteq> q_len (frames r)"
  shows "map fst (fst (process_all r ss)) = replicate (length ss) MIDIF_COMPLETE \<and>
         map snd (fst (process_all r ss)) =
           map (\<lambda>s. s\<lparr>stats := count_read (stats s), current := stored_frame r s\<rparr>) ss \<and>
         frames (snd (process_all r ss)) = frames r \<and>
         missed (total (snd (process_all r ss))) = missed (total r) + of_nat (length ss) \<and>
         errors (total (snd (process_all r ss))) = errors (total r)"
  using assms
proof (induction ss arbitrary: r)
  case Nil
  then show ?case by simp
next
  case (Cons s ss)
  let ?F = "stored_frame r s"
  from Cons.prems(1) have "acceptable r s" by simp
  from process_acceptable [OF this] obtain R where
    p: "midi_frame_process r s =
          (MIDIF_COMPLETE, store_step R ?F, s\<lparr>stats := count_read (stats s), current := ?F\<rparr>)"
    and R: "frames R = frames r" "missed (total R) = missed (total r)"
      "errors (total R) = errors (total r)" "to_skip R = to_skip r" "callback R = callback r"
      "flags R = flags r"
    by blast
  let ?r1 = "store_step R ?F"
  have f1: "frames ?r1 = frames r" and m1: "missed (total ?r1) = missed (total r) + 1"
    using store_step_full [of R ?F] Cons.prems(2,3) R(1,2) by simp_all
  have c1: "to_skip ?r1 = to_skip r" "callback ?r1 = callback r" "flags ?r1 = flags r"
    "errors (total ?r1) = errors (total r)"
    using R by simp_all
  have acc: "\<forall>t\<in>set ss. acceptable ?r1 t"
    using Cons.prems(1) acceptable_cong(1) [OF c1(1-3)] by simp
  have st: "stored_frame ?r1 t = stored_frame r t" for t
    using acceptable_cong(2) [OF c1(1-3)] by simp
  have ih: "map fst (fst (process_all ?r1 ss)) = replicate (length ss) MIDIF_COMPLETE \<and>
         map snd (fst (process_all ?r1 ss)) =
           map (\<lambda>s. s\<lparr>stats := count_read (stats s), current := stored_frame ?r1 s\<rparr>) ss \<and>
         frames (snd (process_all ?r1 ss)) = frames ?r1 \<and>
         missed (total (snd (process_all ?r1 ss))) = missed (total ?r1) + of_nat (length ss) \<and>
         errors (total (snd (process_all ?r1 ss))) = errors (total ?r1)"
    using acc Cons.prems(2,3) by (intro Cons.IH) (simp_all add: f1)
  have pa: "process_all r (s # ss) =
      ((MIDIF_COMPLETE, s\<lparr>stats := count_read (stats s), current := ?F\<rparr>) # fst (process_all ?r1 ss),
       snd (process_all ?r1 ss))"
    by (simp add: p split: prod.split)
  show ?case
    unfolding pa using ih m1 c1 f1 by (simp add: st)
qed

text \<open>
  C5. The queue holds no frame waiting (\<open>len = offset\<close>) and \<open>1024 + k\<close> acceptable frames are
  finalized with no call in between. Every outcome is \<open>MIDIF_COMPLETE\<close>, those of the \<open>k\<close>
  frames in excess too. The queue then holds the first 1024 frames in the order of their
  completion, and 1024 calls of \<^verbatim>\<open>midi_reader_get_next\<close> return them in that order,
  whatever the sources deliver meanwhile. The cumulative \<open>missed\<close> has grown by \<open>k\<close> (on 64
  bits) and the cumulative \<open>errors\<close> is unchanged; \<open>missed\<close> and \<open>errors\<close> of every source
  are unchanged.
\<close>

theorem queue_shedding:
  assumes "q_len (frames r) = q_offset (frames r)"
    and "length (q_frames (frames r)) = MIDI_READER_FRAMES_MAX"
    and "length ss = MIDI_READER_FRAMES_MAX + k"
    and "\<forall>s\<in>set ss. acceptable r s"
    and "length inps = MIDI_READER_FRAMES_MAX"
    and "outs = fst (process_all r ss)" and "r' = snd (process_all r ss)"
  shows "map fst outs = replicate (MIDI_READER_FRAMES_MAX + k) MIDIF_COMPLETE \<and>
         q_frames (frames r') = map (stored_frame r) (take MIDI_READER_FRAMES_MAX ss) \<and>
         q_len (frames r') = MIDI_READER_FRAMES_MAX \<and> q_offset (frames r') = 0 \<and>
         fst (get_next_n r' inps) =
           map (\<lambda>s. Some (stored_frame r s)) (take MIDI_READER_FRAMES_MAX ss) \<and>
         missed (total r') = missed (total r) + of_nat k \<and>
         errors (total r') = errors (total r) \<and>
         map (\<lambda>x. missed (stats (snd x))) outs = map (\<lambda>s. missed (stats s)) ss \<and>
         map (\<lambda>x. errors (stats (snd x))) outs = map (\<lambda>s. errors (stats s)) ss"
proof -
  let ?M = MIDI_READER_FRAMES_MAX
  let ?xs = "take ?M ss" and ?ys = "drop ?M ss"
  let ?r1 = "snd (process_all r ?xs)"
  have lx: "length ?xs = ?M" and ly: "length ?ys = k"
    using assms(3) by simp_all
  have xs_ne: "?xs \<noteq> []"
    using lx by (auto simp: MIDI_READER_FRAMES_MAX_def)
  have ax: "\<forall>s\<in>set ?xs. acceptable r s" and ay: "\<forall>s\<in>set ?ys. acceptable r s"
    using assms(4) by (auto dest: in_set_takeD in_set_dropD)
  have fill: "map fst (fst (process_all r ?xs)) = replicate (length ?xs) MIDIF_COMPLETE \<and>
         map snd (fst (process_all r ?xs)) =
           map (\<lambda>s. s\<lparr>stats := count_read (stats s), current := stored_frame r s\<rparr>) ?xs \<and>
         (?xs \<noteq> [] \<longrightarrow> q_offset (frames ?r1) = 0 \<and> q_len (frames ?r1) = 0 + length ?xs) \<and>
         length (q_frames (frames ?r1)) = MIDI_READER_FRAMES_MAX \<and>
         take (0 + length ?xs) (q_frames (frames ?r1)) =
           take 0 (q_frames (frames r)) @ map (stored_frame r) ?xs \<and>
         missed (total ?r1) = missed (total r) \<and>
         errors (total ?r1) = errors (total r) \<and>
         to_skip ?r1 = to_skip r \<and> callback ?r1 = callback r \<and> flags ?r1 = flags r"
    using ax assms(1,2) lx by (intro process_all_fill) simp_all
  then have q0: "q_offset (frames ?r1) = 0" "q_len (frames ?r1) = ?M"
    "length (q_frames (frames ?r1)) = ?M"
    "take ?M (q_frames (frames ?r1)) = map (stored_frame r) ?xs"
    and t1: "missed (total ?r1) = missed (total r)" "errors (total ?r1) = errors (total r)"
    and c1: "to_skip ?r1 = to_skip r" "callback ?r1 = callback r" "flags ?r1 = flags r"
    and o1: "map fst (fst (process_all r ?xs)) = replicate ?M MIDIF_COMPLETE"
      "map snd (fst (process_all r ?xs)) =
         map (\<lambda>s. s\<lparr>stats := count_read (stats s), current := stored_frame r s\<rparr>) ?xs"
    using xs_ne lx by simp_all
  have "take ?M (q_frames (frames ?r1)) = q_frames (frames ?r1)"
    using q0(3) by simp
  with q0 have q1: "q_offset (frames ?r1) = 0" "q_len (frames ?r1) = ?M"
    "length (q_frames (frames ?r1)) = ?M"
    "q_frames (frames ?r1) = map (stored_frame r) ?xs"
    by simp_all
  have ay1: "\<forall>s\<in>set ?ys. acceptable ?r1 s"
    using ay acceptable_cong(1) [OF c1] by simp
  have st1: "stored_frame ?r1 t = stored_frame r t" for t
    using acceptable_cong(2) [OF c1] by simp
  have over: "map fst (fst (process_all ?r1 ?ys)) = replicate (length ?ys) MIDIF_COMPLETE \<and>
         map snd (fst (process_all ?r1 ?ys)) =
           map (\<lambda>s. s\<lparr>stats := count_read (stats s), current := stored_frame ?r1 s\<rparr>) ?ys \<and>
         frames (snd (process_all ?r1 ?ys)) = frames ?r1 \<and>
         missed (total (snd (process_all ?r1 ?ys))) = missed (total ?r1) + of_nat (length ?ys) \<and>
         errors (total (snd (process_all ?r1 ?ys))) = errors (total ?r1)"
    using ay1 q1(1,2) by (intro process_all_overflow) (simp_all add: MIDI_READER_FRAMES_MAX_def)
  have split: "process_all r ss =
      (fst (process_all r ?xs) @ fst (process_all ?r1 ?ys), snd (process_all ?r1 ?ys))"
    using process_all_append [of r ?xs ?ys] by (simp split: prod.split)
  have r': "r' = snd (process_all ?r1 ?ys)" and outs: "outs = fst (process_all r ?xs) @ fst (process_all ?r1 ?ys)"
    using assms(6,7) split by simp_all
  have fr: "frames r' = frames ?r1"
    using over r' by simp
  have a: "map fst outs = replicate (?M + k) MIDIF_COMPLETE"
    using o1(1) over ly by (simp add: outs replicate_add)
  have so: "map snd outs =
      map (\<lambda>s. s\<lparr>stats := count_read (stats s), current := stored_frame r s\<rparr>) ss"
  proof -
    have "map snd outs =
      map (\<lambda>s. s\<lparr>stats := count_read (stats s), current := stored_frame r s\<rparr>) (?xs @ ?ys)"
      unfolding map_append using o1(2) over by (simp add: outs st1)
    then show ?thesis by simp
  qed
  have b: "map (\<lambda>x. missed (stats (snd x))) outs = map (\<lambda>s. missed (stats s)) ss"
    "map (\<lambda>x. errors (stats (snd x))) outs = map (\<lambda>s. errors (stats s)) ss"
  proof -
    have "map (\<lambda>x. missed (stats (snd x))) outs = map (\<lambda>s. missed (stats s)) (map snd outs)"
      "map (\<lambda>x. errors (stats (snd x))) outs = map (\<lambda>s. errors (stats s)) (map snd outs)"
      by (simp_all add: comp_def)
    then show "map (\<lambda>x. missed (stats (snd x))) outs = map (\<lambda>s. missed (stats s)) ss"
      "map (\<lambda>x. errors (stats (snd x))) outs = map (\<lambda>s. errors (stats s)) ss"
      by (simp_all add: so comp_def count_read_def)
  qed
  have "fst (get_next_n r' inps) =
    map (\<lambda>i. Some (q_frames (frames r') ! i)) [q_offset (frames r')..<q_offset (frames r') + length inps]"
    using q1 assms(5) by (intro get_next_n_in_order) (simp_all add: fr)
  also have "\<dots> = map Some (map (\<lambda>i. q_frames (frames r') ! i) [0..<length (q_frames (frames r'))])"
    using q1 assms(5) by (simp add: fr)
  also have "\<dots> = map Some (q_frames (frames r'))"
    by (simp only: map_nth)
  finally have g: "fst (get_next_n r' inps) =
           map (\<lambda>s. Some (stored_frame r s)) (take MIDI_READER_FRAMES_MAX ss)"
    using q1(4) by (simp add: fr)
  have m: "missed (total r') = missed (total r) + of_nat k"
    "errors (total r') = errors (total r)"
    using over t1 ly by (simp_all add: r')
  show ?thesis
    using a q1 g m b by (simp add: fr)
qed

theorem queue_shedding_witness:
  "q_len (frames reader0) = q_offset (frames reader0) \<and>
   length (q_frames (frames reader0)) = MIDI_READER_FRAMES_MAX \<and>
   length (replicate 1025 clock_source) = MIDI_READER_FRAMES_MAX + 1 \<and>
   acceptable reader0 clock_source \<and>
   length (replicate 1024 (\<lambda>i :: nat. [] :: u8 list)) = MIDI_READER_FRAMES_MAX \<and>
   map fst (fst (process_all reader0 (replicate 1025 clock_source))) =
     replicate (MIDI_READER_FRAMES_MAX + 1) MIDIF_COMPLETE \<and>
   q_frames (frames (snd (process_all reader0 (replicate 1025 clock_source)))) =
     replicate 1024 (stored_frame reader0 clock_source) \<and>
   fst (get_next_n (snd (process_all reader0 (replicate 1025 clock_source)))
         (replicate 1024 (\<lambda>i. []))) =
     replicate 1024 (Some (stored_frame reader0 clock_source)) \<and>
   missed (total (snd (process_all reader0 (replicate 1025 clock_source)))) =
     missed (total reader0) + 1 \<and>
   frame_bytes (stored_frame reader0 clock_source) = [0xF8]"
  using queue_shedding [of reader0 "replicate 1025 clock_source" 1
      "replicate 1024 (\<lambda>i. [])" "fst (process_all reader0 (replicate 1025 clock_source))"
      "snd (process_all reader0 (replicate 1025 clock_source))"]
  by (simp add: MIDI_READER_FRAMES_MAX_def acceptable_def stored_frame_def clock_source_def
      frame_skipped_def skip_entry_def mk_frame_def expand_step_def channel_translation_def
      frame_bytes_def)

section \<open>The running-status boundary is reached with a frame in progress\<close>

lemma expand_loop_length [simp]:
  "length (data (expand_loop f i mf)) = length (data mf)"
  by (induction f i mf rule: expand_loop.induct) (subst expand_loop.simps, simp)

lemma expand_running_length [simp]:
  "length (data (snd (midi_frame_expand_running mf))) = length (data mf)"
  by (simp add: midi_frame_expand_running_def midi_frame_reset_def)

lemma expand_step_length [simp]: "length (data (expand_step r mf)) = length (data mf)"
  by (simp add: expand_step_def)

lemma channel_translation_length [simp]:
  "length (data (channel_translation s mf)) = length (data mf)"
  by (simp add: channel_translation_def)

lemma process_running [simp]:
  "running (snd (snd (midi_frame_process r s))) = running s"
  by (simp add: midi_frame_process_def Let_def split: option.split prod.split)

lemma process_data_length:
  assumes "case callback r of None \<Rightarrow> True | Some cb \<Rightarrow> cb_ok cb"
  shows "length (data (current (snd (snd (midi_frame_process r s))))) = MIDI_FRAME_MAX \<or>
         length (data (current (snd (snd (midi_frame_process r s))))) = length (data (current s))"
proof (cases "callback r")
  case None
  then show ?thesis
    by (simp add: midi_frame_process_def Let_def)
next
  case (Some cb)
  then have "length (data (snd (cb f))) = MIDI_FRAME_MAX" for f
    using assms by (simp add: cb_ok_def)
  then have "length (data x2) = MIDI_FRAME_MAX" if "cb f = (x1, x2)" for f x1 x2
    using that by (metis snd_conv)
  then show ?thesis
    using Some by (simp add: midi_frame_process_def Let_def split: prod.split)
qed

lemma process_src_inv:
  assumes "case callback r of None \<Rightarrow> True | Some cb \<Rightarrow> cb_ok cb"
    and "length (data (current s)) = MIDI_FRAME_MAX" "running s = 0"
  shows "src_inv (snd (snd (midi_frame_process r s)))"
    and "running (snd (snd (midi_frame_process r s))) = 0"
  using process_data_length [OF assms(1), of s] assms(2,3)
  by (auto simp: src_inv_def)

lemma append_src_inv:
  assumes "src_inv s" "len (current s) \<noteq> MIDI_FRAME_MAX"
    and "running s = 0 \<or> b AND 0x80 = 0"
    and "s2 = (if len (current s) = 0
               then s\<lparr>running := (if b \<ge> 0x80 \<and> b \<le> 0xef then b else 0)\<rparr>
               else s)\<lparr>current := frame_append (current s) b\<rparr>"
  shows "src_inv s2"
    and "running s2 \<noteq> 0 \<Longrightarrow> midi_frame_len ! (unat (data (current s2) ! 0) - 0x80) \<noteq> - 0xf0"
proof -
  have L: "length (data (current s)) = 128"
    using assms(1) by (simp add: src_inv_def MIDI_FRAME_MAX_def)
  show inv: "src_inv s2"
  proof (cases "len (current s) = 0")
    case True
    then show ?thesis
      using L by (simp add: assms(4) src_inv_def MIDI_FRAME_MAX_def)
  next
    case False
    show ?thesis
    proof (cases "running s = 0")
      case True
      then show ?thesis
        using False L by (simp add: assms(4) src_inv_def MIDI_FRAME_MAX_def)
    next
      case nz: False
      then have "len (current s) < 128"
        using assms(1,2) by (simp add: src_inv_def MIDI_FRAME_MAX_def)
      then show ?thesis
        using False nz assms(1) L by (simp add: assms(4) src_inv_def MIDI_FRAME_MAX_def)
    qed
  qed
  assume "running s2 \<noteq> 0"
  with inv have "data (current s2) ! 0 = running s2" "0x80 \<le> running s2" "running s2 \<le> 0xef"
    by (simp_all add: src_inv_def)
  then show "midi_frame_len ! (unat (data (current s2) ! 0) - 0x80) \<noteq> - 0xf0"
    using table_status [of "running s2"] by auto
qed

lemma src_inv_running_0:
  "length (data (current s)) = MIDI_FRAME_MAX \<Longrightarrow> running s = 0 \<Longrightarrow> src_inv s"
  by (simp add: src_inv_def)

lemma push_byte_src_inv:
  assumes "case callback r of None \<Rightarrow> True | Some cb \<Rightarrow> cb_ok cb" and "src_inv s"
  shows "src_inv (snd (snd (midi_reader_push_byte r s d))) \<and>
         (final_state (fst (midi_reader_push_byte r s d)) \<longrightarrow>
            running (snd (snd (midi_reader_push_byte r s d))) = 0)"
proof -
  have L: "length (data (current s)) = MIDI_FRAME_MAX"
    using assms(2) by (simp add: src_inv_def)
  note P = process_src_inv [OF assms(1)]
  consider (nodata) "d < 0" | (io) "\<not> d < 0" "d > 0xFF"
    | (long) "\<not> d < 0" "\<not> d > 0xFF" "len (current s) = MIDI_FRAME_MAX"
    | (boundary) "\<not> d < 0" "\<not> d > 0xFF" "len (current s) \<noteq> MIDI_FRAME_MAX"
        "running s \<noteq> 0 \<and> (word_of_int d :: u8) AND 0x80 \<noteq> 0"
    | (append) "\<not> d < 0" "\<not> d > 0xFF" "len (current s) \<noteq> MIDI_FRAME_MAX"
        "running s = 0 \<or> (word_of_int d :: u8) AND 0x80 = 0"
    by blast
  then show ?thesis
  proof cases
    case nodata
    then show ?thesis
      using assms(2) by (simp add: midi_reader_push_byte_def final_state_def)
  next
    case io
    then show ?thesis
      using L by (simp add: midi_reader_push_byte_def src_inv_def)
  next
    case long
    then show ?thesis
      using L by (simp add: midi_reader_push_byte_def src_inv_def)
  next
    case boundary
    let ?s1 = "s\<lparr>push_back := uint (word_of_int d :: u8), running := 0\<rparr>"
    have "src_inv (snd (snd (midi_frame_process r ?s1)))"
      "running (snd (snd (midi_frame_process r ?s1))) = 0"
      using L by (simp_all add: P)
    then show ?thesis
      using boundary L by (simp add: midi_reader_push_byte_def Let_def src_inv_def)
  next
    case append
    define b where "b = (word_of_int d :: u8)"
    define s2 where "s2 = (if len (current s) = 0
               then s\<lparr>running := (if b \<ge> 0x80 \<and> b \<le> 0xef then b else 0)\<rparr>
               else s)\<lparr>current := frame_append (current s) b\<rparr>"
    have i2: "src_inv s2"
      and t2: "running s2 \<noteq> 0 \<Longrightarrow> midi_frame_len ! (unat (data (current s2) ! 0) - 0x80) \<noteq> - 0xf0"
      using append_src_inv [OF assms(2) append(3) _ s2_def] append(4) by (simp_all add: b_def)
    have L2: "length (data (current s2)) = MIDI_FRAME_MAX"
      using i2 by (simp add: src_inv_def)
    have pp: "running s2 = 0 \<Longrightarrow> src_inv (snd (snd (midi_frame_process r s2))) \<and>
        running (snd (snd (midi_frame_process r s2))) = 0"
      using L2 by (simp add: P)
    have nb: "\<not> (running s \<noteq> 0 \<and> (word_of_int d :: u8) AND 0x80 \<noteq> 0)"
      using append(4) by blast
    have e: "midi_reader_push_byte r s d =
       (if data (current s2) ! 0 AND 0x80 = 0
             then (MIDIF_ERROR, r\<lparr>total := count_error (total r)\<rparr>,
                   s2\<lparr>stats := count_error (stats s2), running := 0\<rparr>)
             else
               if midi_frame_len ! (unat (data (current s2) ! 0) - 0x80) = - 0xf0 \<and>
                  len (current s2) > 1
               then if b = 0xf7 then midi_frame_process r s2
                    else (MIDIF_NEXT, r, s2)
               else if running s2 = 0 \<and>
                  midi_frame_len ! (unat (data (current s2) ! 0) - 0x80) = int (len (current s2))
               then midi_frame_process r s2
               else (MIDIF_NEXT, r, s2))"
      unfolding midi_reader_push_byte_def Let_def s2_def b_def
      by (simp only: append(1,2,3) nb if_False) simp
    show ?thesis
    proof (cases "data (current s2) ! 0 AND 0x80 = 0")
      case True
      then show ?thesis
        unfolding e using L2 by (simp add: src_inv_def)
    next
      case hi: False
      show ?thesis
      proof (cases "midi_frame_len ! (unat (data (current s2) ! 0) - 0x80) = - 0xf0 \<and>
                  len (current s2) > 1")
        case True
        with t2 have r0: "running s2 = 0" by blast
        show ?thesis
        proof (cases "b = 0xf7")
          case True
          with \<open>midi_frame_len ! (unat (data (current s2) ! 0) - 0x80) = - 0xf0 \<and>
                  len (current s2) > 1\<close> hi pp [OF r0] show ?thesis
            unfolding e by simp
        next
          case False
          with \<open>midi_frame_len ! (unat (data (current s2) ! 0) - 0x80) = - 0xf0 \<and>
                  len (current s2) > 1\<close> hi i2 show ?thesis
            unfolding e by (simp add: final_state_def)
        qed
      next
        case nsx: False
        show ?thesis
        proof (cases "running s2 = 0 \<and>
                  midi_frame_len ! (unat (data (current s2) ! 0) - 0x80) = int (len (current s2))")
          case True
          then have "running s2 = 0" by simp
          from pp [OF this] True nsx hi show ?thesis
            unfolding e by auto
        next
          case False
          with nsx hi i2 show ?thesis
            unfolding e by (auto simp: final_state_def)
        qed
      qed
    qed
  qed
qed

lemma list_all_update:
  "list_all P xs \<Longrightarrow> (i < length xs \<Longrightarrow> P y) \<Longrightarrow> list_all P (xs[i := y])"
  by (cases "i < length xs")
    (auto simp: list_all_iff list_update_beyond dest: set_update_subset_insert [THEN subsetD])

lemma reset_source_inv [simp]: "src_inv (fst (midi_reader_reset_source z b))"
  by (simp add: midi_reader_reset_source_def zero_source_def zero_frame_def src_inv_def Let_def)

lemma src_inv_fields [simp]:
  "src_inv (s\<lparr>fd := a\<rparr>) = src_inv s" "src_inv (s\<lparr>channel := c\<rparr>) = src_inv s"
  "src_inv (s\<lparr>stats := st\<rparr>) = src_inv s" "src_inv (s\<lparr>push_back := p\<rparr>) = src_inv s"
  "src_inv (s\<lparr>buf := bf\<rparr>) = src_inv s" "src_inv (s\<lparr>buf_len := bl\<rparr>) = src_inv s"
  "src_inv (s\<lparr>buf_offset := bo\<rparr>) = src_inv s"
  by (simp_all add: src_inv_def)

lemma read_source_inv [simp]: "src_inv (read_source s inp) = src_inv s"
  by (simp add: read_source_def Let_def)

lemma get_byte_inv [simp]: "src_inv (snd (midi_reader_get_byte s)) = src_inv s"
  by (simp add: midi_reader_get_byte_def)

lemma reader_inv_nth:
  "reader_inv r \<Longrightarrow> i < MIDI_READER_IN_MAX \<Longrightarrow> src_inv (sources r ! i)"
  by (simp add: reader_inv_def list_all_length)

lemma reader_inv_fields [simp]:
  "reader_inv (r\<lparr>frames := q\<rparr>) = reader_inv r" "reader_inv (r\<lparr>total := t\<rparr>) = reader_inv r"
  "reader_inv (r\<lparr>start := st\<rparr>) = reader_inv r" "reader_inv (r\<lparr>dumpfd := d\<rparr>) = reader_inv r"
  "reader_inv (r\<lparr>closed_fds := c\<rparr>) = reader_inv r" "reader_inv (r\<lparr>flags := fl\<rparr>) = reader_inv r"
  "reader_inv (r\<lparr>to_skip := sk\<rparr>) = reader_inv r"
  by (simp_all add: reader_inv_def)

lemma reader_inv_cong:
  "sources r' = sources r \<Longrightarrow> nsources r' = nsources r \<Longrightarrow> callback r' = callback r \<Longrightarrow>
   reader_inv r' = reader_inv r"
  by (simp add: reader_inv_def)

lemma store_step_sources [simp]: "sources (store_step r mf) = sources r"
  by (simp add: store_step_def Let_def)

lemma dump_step_sources [simp]: "sources (dump_step r mf) = sources r"
  by (simp add: dump_step_def)

lemma debug_trace_sources [simp]: "sources (debug_trace r mf b) = sources r"
  by (simp add: debug_trace_def)

lemma process_reader_fields [simp]:
  "sources (fst (snd (midi_frame_process r s))) = sources r"
  "callback (fst (snd (midi_frame_process r s))) = callback r"
  by (simp_all add: midi_frame_process_def Let_def split: option.split prod.split)

lemma push_byte_reader_fields [simp]:
  "sources (fst (snd (midi_reader_push_byte r s d))) = sources r"
  "callback (fst (snd (midi_reader_push_byte r s d))) = callback r"
  by (simp_all add: midi_reader_push_byte_def Let_def)

lemma push_byte_reader_inv [simp]:
  "reader_inv (fst (snd (midi_reader_push_byte r s d))) = reader_inv r"
  by (rule reader_inv_cong) simp_all

lemma init_inv: "reader_inv (midi_reader_init e fl skip)"
  by (simp add: reader_inv_def midi_reader_init_def list_all_iff)

lemma add_source_inv:
  assumes "reader_inv r"
  shows "reader_inv (snd (midi_reader_add_source r fd' chan))"
proof -
  have "list_all src_inv ((sources r)[nsources r :=
      (sources r ! nsources r)\<lparr>fd := fd', channel := c\<rparr>])" if "nsources r < MIDI_READER_IN_MAX" for c
    using assms that reader_inv_nth [OF assms that]
    by (intro list_all_update) (simp_all add: reader_inv_def)
  then show ?thesis
    using assms by (auto simp: midi_reader_add_source_def reader_inv_def)
qed

lemma reset_source_n_inv:
  assumes "reader_inv r"
  shows "reader_inv (midi_reader_reset_source_n r i b)"
proof -
  have "list_all src_inv ((sources r)[i := fst (midi_reader_reset_source (sources r ! i) b)])"
    using assms by (intro list_all_update) (simp_all add: reader_inv_def)
  then show ?thesis
    using assms by (simp add: midi_reader_reset_source_n_def reader_inv_def split: prod.split)
      (metis fst_conv)
qed

lemma shift_sources_all:
  "length srcs = MIDI_READER_IN_MAX \<Longrightarrow> list_all P srcs \<Longrightarrow>
   list_all P (fst (shift_sources srcs j))"
proof (induction srcs j rule: shift_sources.induct)
  case (1 srcs j)
  show ?case
  proof (cases "j < MIDI_READER_IN_MAX")
    case True
    have "P (srcs ! j)"
      using True "1.prems" by (simp add: list_all_length)
    then have "list_all P (srcs[j - 1 := srcs ! j])"
      using "1.prems"(2) by (intro list_all_update)
    then have "list_all P (fst (shift_sources (srcs[j - 1 := srcs ! j]) (j + 1)))"
      using True "1.prems"(1) by (intro "1.IH") simp_all
    then show ?thesis
      using True by (subst shift_sources.simps) simp
  next
    case False
    then show ?thesis
      using "1.prems" by (subst shift_sources.simps) simp
  qed
qed

lemma reset_source_n_nsources [simp]:
  "nsources (midi_reader_reset_source_n r i b) = nsources r"
  by (simp add: midi_reader_reset_source_n_def split: prod.split)

lemma remove_source_inv:
  assumes "reader_inv r"
  shows "reader_inv (snd (midi_reader_remove_source r fd'))"
proof (cases "fd' < 0 \<or> nsources r = 0 \<or> find_source r fd' \<ge> nsources r")
  case True
  then show ?thesis
    using assms by (auto simp: midi_reader_remove_source_def Let_def)
next
  case False
  define r1 where "r1 = midi_reader_reset_source_n r (find_source r fd') True"
  obtain srcs j where sh: "shift_sources (sources r1) (Suc (find_source r fd')) = (srcs, j)"
    by (cases "shift_sources (sources r1) (Suc (find_source r fd'))")
  have i1: "reader_inv r1"
    unfolding r1_def using assms by (rule reset_source_n_inv)
  have "list_all src_inv (fst (shift_sources (sources r1) (Suc (find_source r fd'))))"
    using i1 by (intro shift_sources_all) (simp_all add: reader_inv_def)
  then have a: "list_all src_inv srcs"
    by (simp add: sh)
  have "length (fst (shift_sources (sources r1) (Suc (find_source r fd')))) = length (sources r1)"
    by (rule shift_sources_length)
  then have l: "length srcs = MIDI_READER_IN_MAX"
    using i1 by (simp add: sh reader_inv_def)
  have i2: "reader_inv (r1\<lparr>sources := srcs\<rparr>)"
    using i1 a l by (simp add: reader_inv_def)
  have i3: "reader_inv (midi_reader_reset_source_n (r1\<lparr>sources := srcs\<rparr>) j False)"
    using i2 by (rule reset_source_n_inv)
  define X where "X = midi_reader_reset_source_n (r1\<lparr>sources := srcs\<rparr>) j False"
  have eq: "snd (midi_reader_remove_source r fd') = X\<lparr>nsources := nsources X - 1\<rparr>"
    using False sh by (simp add: midi_reader_remove_source_def Let_def r1_def [symmetric] X_def)
  have "reader_inv (X\<lparr>nsources := nsources X - 1\<rparr>)"
    using i3 by (auto simp: reader_inv_def X_def [symmetric])
  then show ?thesis
    by (simp only: eq)
qed

lemma close_inv:
  assumes "reader_inv r"
  shows "reader_inv (midi_reader_close r)"
proof -
  have "reader_inv (foldl (\<lambda>r i. midi_reader_reset_source_n r i True) r xs)" for xs
    using assms by (induction xs arbitrary: r) (simp_all add: reset_source_n_inv)
  then show ?thesis
    using assms by (simp add: midi_reader_close_def Let_def)
qed

lemma read_inv:
  assumes "reader_inv r"
  shows "reader_inv (midi_reader_read r inps)"
proof -
  have step: "reader_inv (r\<lparr>sources := (sources r)[i := read_source (sources r ! i) (inps i)]\<rparr>)"
    if "reader_inv r" for r i
  proof -
    have "list_all src_inv ((sources r)[i := read_source (sources r ! i) (inps i)])"
      using that by (intro list_all_update) (simp_all add: reader_inv_def list_all_length)
    then show ?thesis using that by (simp add: reader_inv_def)
  qed
  have "reader_inv (foldl (\<lambda>r i. r\<lparr>sources := (sources r)[i := read_source (sources r ! i) (inps i)]\<rparr>) r xs)" for xs
    using assms by (induction xs arbitrary: r) (simp_all add: step)
  then show ?thesis
    by (simp add: midi_reader_read_def)
qed

lemma update_source_inv:
  assumes "reader_inv r" "src < nsources r"
  shows "reader_inv (update_source r src)"
proof -
  obtain b s where g: "midi_reader_get_byte (sources r ! src) = (b, s)"
    by (cases "midi_reader_get_byte (sources r ! src)")
  obtain st r' s' where p: "midi_reader_push_byte r s b = (st, r', s')"
    by (cases "midi_reader_push_byte r s b")
  have "src < MIDI_READER_IN_MAX"
    using assms by (simp add: reader_inv_def)
  from reader_inv_nth [OF assms(1) this] have "src_inv s"
    using get_byte_inv [of "sources r ! src"] g by simp
  moreover have cb: "case callback r of None \<Rightarrow> True | Some cb \<Rightarrow> cb_ok cb"
    using assms(1) by (simp add: reader_inv_def)
  ultimately have pi: "src_inv s'" "final_state st \<Longrightarrow> running s' = 0"
    using push_byte_src_inv [of r s b] p by simp_all
  let ?s3 = "if st = MIDIF_COMPLETE \<or> st = MIDIF_ERROR \<or> st = MIDIF_IOERROR \<or> st = MIDIF_SKIPPED
               then s'\<lparr>current := midi_frame_reset (current s')\<rparr> else s'"
  have s3: "src_inv ?s3"
    using pi by (auto simp: final_state_def src_inv_def midi_frame_reset_def)
  have r': "reader_inv r'"
    using push_byte_reader_inv [of r s b] p assms(1) by simp
  then have "list_all src_inv ((sources r')[src := ?s3])"
    using s3 by (intro list_all_update) (simp_all add: reader_inv_def)
  then have "reader_inv (r'\<lparr>sources := (sources r')[src := ?s3]\<rparr>)"
    using r' by (simp add: reader_inv_def)
  then show ?thesis
    by (simp add: update_source_def g p)
qed

lemma update_loop_inv:
  "reader_inv r \<Longrightarrow> reader_inv (update_loop r src i)"
proof (induction r src i rule: update_loop.induct)
  case (1 reader src i)
  show ?case
  proof (cases "i < nsources reader")
    case False
    then show ?thesis
      using "1.prems" by (subst update_loop.simps) simp
  next
    case True
    let ?src = "if src \<ge> nsources reader then 0 else src"
    have "?src < nsources reader" using True by auto
    then have "reader_inv (update_source reader ?src)"
      using "1.prems" by (intro update_source_inv)
    then have "reader_inv (update_loop (update_source reader ?src) (?src + 1) (i + 1))"
      using True by (intro "1.IH") auto
    then show ?thesis
      using True by (subst update_loop.simps) (simp add: Let_def)
  qed
qed

lemma update_inv:
  assumes "reader_inv r"
  shows "reader_inv (snd (midi_reader_update r inps))"
  using assms by (simp add: midi_reader_update_def Let_def update_loop_inv read_inv)

lemma get_next_inv:
  assumes "reader_inv r"
  shows "reader_inv (snd (midi_reader_get_next r inps))"
  using update_inv [OF assms, of inps]
  by (cases "midi_reader_update r inps") (simp add: midi_reader_get_next_def)

lemma inject_loop_inv:
  "reader_inv r \<Longrightarrow> reader_inv (fst (snd (snd (inject_loop mf i r s))))"
proof (induction mf i r s rule: inject_loop.induct)
  case (1 mf i reader src)
  show ?case
  proof (cases "i < len mf")
    case False
    then show ?thesis
      using "1.prems" by (subst inject_loop.simps) simp
  next
    case True
    obtain st r' s' where p: "midi_reader_push_byte reader src (uint (data mf ! i)) = (st, r', s')"
      by (cases "midi_reader_push_byte reader src (uint (data mf ! i))")
    have r': "reader_inv r'"
      using push_byte_reader_inv [of reader src "uint (data mf ! i)"] p "1.prems" by simp
    show ?thesis
    proof (cases "st = MIDIF_COMPLETE \<or> st = MIDIF_NEXT")
      case c: True
      have "reader_inv (fst (snd (snd (inject_loop mf (i + 1) r' s'))))"
        using True p c r' by (intro "1.IH") simp_all
      then show ?thesis
        using True p c by (subst inject_loop.simps) simp
    next
      case False
      then show ?thesis
        using True p r' by (subst inject_loop.simps) simp
    qed
  qed
qed

lemma inject_inv:
  assumes "reader_inv r"
  shows "reader_inv (snd (midi_reader_inject r mf))"
  using assms inject_loop_inv [OF assms, of mf 0 inject_source]
  by (cases "inject_loop mf 0 r inject_source") (simp add: midi_reader_inject_def)

lemma reset_stats_inv:
  assumes "reader_inv r"
  shows "reader_inv (midi_reader_reset_stats r n)"
proof -
  have "list_all src_inv ((sources r)[nat n := (sources r ! nat n)\<lparr>stats := zero_stats\<rparr>])"
    using assms by (intro list_all_update) (simp_all add: reader_inv_def list_all_length)
  then show ?thesis
    using assms by (simp add: midi_reader_reset_stats_def reader_inv_def)
qed

lemma reachable_inv: "reachable r \<Longrightarrow> reader_inv r"
proof (induction rule: reachable.induct)
  case (init e fl skip)
  show ?case by (rule init_inv)
next
  case (add_source r fd' chan)
  then show ?case by (simp add: add_source_inv)
next
  case (remove_source r fd')
  then show ?case by (simp add: remove_source_inv)
next
  case (set_dump_fd r fd')
  then show ?case by (simp add: midi_reader_set_dump_fd_def)
next
  case (set_callback_none r)
  then show ?case by (simp add: midi_reader_set_callback_def reader_inv_def)
next
  case (set_callback r cb)
  then show ?case by (simp add: midi_reader_set_callback_def reader_inv_def)
next
  case (close r)
  then show ?case by (simp add: close_inv)
next
  case (update r inps)
  then show ?case by (simp add: update_inv)
next
  case (get_next r inps)
  then show ?case by (simp add: get_next_inv)
next
  case (clear_queue r)
  then show ?case by (simp add: midi_reader_clear_queue_def)
next
  case (inject r mf)
  then show ?case by (simp add: inject_inv)
next
  case (reset_stats r n)
  then show ?case by (simp add: reset_stats_inv)
next
  case (reinit r fl skip)
  show ?case by (rule init_inv)
next
  case (in_update_read r inps)
  then show ?case by (simp add: read_inv)
next
  case (in_update_start r)
  then show ?case by simp
next
  case (in_update_source r src)
  then show ?case by (simp add: update_source_inv)
next
  case (in_inject_push r s d)
  then show ?case by simp
qed

lemma inject_source_inv [simp]: "src_inv inject_source"
  by (simp add: inject_source_def)

lemma push_site_inv: "push_site r s \<Longrightarrow> reader_inv r \<and> src_inv s"
proof (induction rule: push_site.induct)
  case (in_update r src)
  from in_update(1) have i: "reader_inv r" by (rule reachable_inv)
  then have "src < MIDI_READER_IN_MAX"
    using in_update(2) by (simp add: reader_inv_def)
  from reader_inv_nth [OF i this] i show ?case by simp
next
  case (in_inject r)
  then show ?case by (simp add: reachable_inv)
next
  case (in_inject_next r s d st r' s')
  then have cb: "case callback r of None \<Rightarrow> True | Some cb \<Rightarrow> cb_ok cb"
    by (simp add: reader_inv_def)
  from push_byte_src_inv [OF cb, of s d] in_inject_next have "src_inv s'"
    by simp
  moreover have "reader_inv r'"
    using push_byte_reader_inv [of r s d] in_inject_next by simp
  ultimately show ?case by simp
qed

text \<open>
  C9. At every call of \<^verbatim>\<open>midi_reader_push_byte\<close> made by the reader, from any state that
  the public operations reach, a source that takes the running-status boundary branch
  (running status remembered, incoming byte with its high bit set) has a frame in progress
  of length at least 1: the arm \<open>mf->len == 0\<close> of the check in that branch is never
  taken.
\<close>

theorem boundary_frame_not_empty:
  assumes "push_site r s" and "takes_boundary s d"
  shows "1 \<le> len (current s) \<and> len (current s) \<noteq> 0"
  using push_site_inv [OF assms(1)] assms(2)
  by (auto simp: src_inv_def takes_boundary_def)

lemma update_loop_reachable:
  "reachable r \<Longrightarrow> reachable (update_loop r src i)"
proof (induction r src i rule: update_loop.induct)
  case (1 reader src i)
  show ?case
  proof (cases "i < nsources reader")
    case False
    then show ?thesis
      using "1.prems" by (subst update_loop.simps) simp
  next
    case True
    let ?src = "if src \<ge> nsources reader then 0 else src"
    have "?src < nsources reader" using True by auto
    then have "reachable (update_source reader ?src)"
      using "1.prems" by (intro reachable.in_update_source)
    then have "reachable (update_loop (update_source reader ?src) (?src + 1) (i + 1))"
      using True by (intro "1.IH") auto
    then show ?thesis
      using True by (subst update_loop.simps) (simp add: Let_def)
  qed
qed

lemma update_from_steps:
  assumes "reachable r"
  shows "reachable (snd (midi_reader_update r inps))"
proof -
  have "reachable (midi_reader_read r inps)"
    using assms by (rule reachable.in_update_read)
  then have "reachable ((midi_reader_read r inps)\<lparr>start :=
      (if start (midi_reader_read r inps) + 1 \<ge> int (nsources (midi_reader_read r inps)) then 0
       else start (midi_reader_read r inps) + 1)\<rparr>)"
    by (rule reachable.in_update_start)
  then show ?thesis
    by (simp add: midi_reader_update_def Let_def update_loop_reachable)
qed

theorem boundary_frame_not_empty_witness:
  "push_site reader0
     (inject_source\<lparr>running := 0x90, current := frame_append (current inject_source) 0x90\<rparr>) \<and>
   takes_boundary
     (inject_source\<lparr>running := 0x90, current := frame_append (current inject_source) 0x90\<rparr>)
     0xF8 \<and>
   1 \<le> len (current
     (inject_source\<lparr>running := 0x90, current := frame_append (current inject_source) 0x90\<rparr>))"
proof -
  let ?S = "inject_source\<lparr>running := 0x90, current := frame_append (current inject_source) 0x90\<rparr>"
  have r: "reachable reader0"
    unfolding reader0_def by (rule reachable.init) (simp add: fresh_env_def)
  have p: "midi_reader_push_byte reader0 inject_source (uint (0x90 :: u8)) = (MIDIF_NEXT, reader0, ?S)"
    by (intro push_first_status) simp_all
  have ps: "push_site reader0 ?S"
    by (rule push_site.in_inject_next [OF push_site.in_inject [OF r] p])
  have tb: "takes_boundary ?S 0xF8"
    by (simp add: takes_boundary_def MIDI_FRAME_MAX_def)
  from boundary_frame_not_empty [OF ps tb] ps tb show ?thesis
    by simp
qed

end
